theory Spec2Isabelle
  imports Main "HOL-Library.Sublist"
begin

section \<open>JavaScript values\<close>

text \<open>
  The server works on values produced by \<^verbatim>\<open>JSON.parse\<close> (the request body, the token
  response and the thread document).  They are modelled by one datatype.  \<open>JUndefined\<close> is
  the value of a missing property; an object is an association list read with \<open>map_of\<close>.
  Numbers are integers here: the code only tests them for truthiness and passes them on.
\<close>

datatype jsval =
    JUndefined
  | JNull
  | JBool bool
  | JNum int
  | JStr string
  | JArr "jsval list"
  | JObj "(string \<times> jsval) list"

text \<open>What a \<^verbatim>\<open>throw\<close> carries: a \<^verbatim>\<open>TypeError\<close> raised by the language, the
  \<^verbatim>\<open>SyntaxError\<close> of a body that is not JSON, or the rejection of a network call with its
  message.\<close>

datatype js_error = TypeError | SyntaxError | NetworkError string

text \<open>\<^verbatim>\<open>if (v)\<close>, \<^verbatim>\<open>!v\<close>, \<^verbatim>\<open>a && b\<close>: the falsy values are undefined, null, false, 0
  and the empty string.\<close>

fun truthy :: "jsval \<Rightarrow> bool" where
  "truthy JUndefined = False"
| "truthy JNull = False"
| "truthy (JBool b) = b"
| "truthy (JNum n) = (n \<noteq> 0)"
| "truthy (JStr s) = (s \<noteq> [])"
| "truthy (JArr xs) = True"
| "truthy (JObj kvs) = True"

fun nullish :: "jsval \<Rightarrow> bool" where
  "nullish JUndefined = True"
| "nullish JNull = True"
| "nullish v = False"

text \<open>\<^verbatim>\<open>v ?? d\<close>\<close>

definition coalesce :: "jsval \<Rightarrow> jsval \<Rightarrow> jsval" where
  "coalesce v d = (if nullish v then d else v)"

text \<open>Reading property \<open>k\<close> of a value that is not null or undefined.  Only objects carry
  the property names this program reads; every other value gives undefined.\<close>

fun lookup :: "jsval \<Rightarrow> string \<Rightarrow> jsval" where
  "lookup (JObj kvs) k = (case map_of kvs k of None \<Rightarrow> JUndefined | Some v \<Rightarrow> v)"
| "lookup v k = JUndefined"

text \<open>\<^verbatim>\<open>v.k\<close>: throws on null and undefined.\<close>

definition member :: "jsval \<Rightarrow> string \<Rightarrow> js_error + jsval" where
  "member v k = (if nullish v then Inl TypeError else Inr (lookup v k))"

text \<open>\<^verbatim>\<open>v?.k\<close>\<close>

definition opt_member :: "jsval \<Rightarrow> string \<Rightarrow> jsval" where
  "opt_member v k = (if nullish v then JUndefined else lookup v k)"

text \<open>\<^verbatim>\<open>for (const child of v)\<close>: an array gives its elements, a string its characters (as
  one-character strings), anything else is not iterable.\<close>

fun iterate :: "jsval \<Rightarrow> js_error + jsval list" where
  "iterate (JArr xs) = Inr xs"
| "iterate (JStr s) = Inr (map (\<lambda>c. JStr [c]) s)"
| "iterate v = Inl TypeError"

section \<open>The comment flattener\<close>

record comment_record =
  author :: jsval
  body :: jsval
  score :: jsval
  created_utc :: jsval

text \<open>The object literal pushed for the data object \<open>d\<close> of a comment (index.js, lines
  120 to 125).  It is built after \<^verbatim>\<open>d.body\<close> has been read, so \<open>d\<close> is neither null nor
  undefined and the property reads cannot throw.\<close>

definition comment_of :: "jsval \<Rightarrow> comment_record" where
  "comment_of d =
     \<lparr>author = coalesce (lookup d ''author'') (JStr ''[deleted]''),
      body = lookup d ''body'',
      score = coalesce (lookup d ''score'') (JNum 0),
      created_utc = coalesce (lookup d ''created_utc'') JNull\<rparr>"

text \<open>\<^verbatim>\<open>d.replies?.data?.children\<close>, again for a \<open>d\<close> that is neither null nor undefined.\<close>

definition replies_children :: "jsval \<Rightarrow> jsval" where
  "replies_children d = opt_member (opt_member (lookup d ''replies'') ''data'') ''children''"

text \<open>
  \<open>extractComments\<close> (index.js, lines 114 to 134, the same text in every variant).  The
  \<^verbatim>\<open>for\<close> loop is \<open>extractLoop\<close>, which carries the array \<^verbatim>\<open>comments\<close> built so far; a
  \<^verbatim>\<open>TypeError\<close> raised anywhere ends the whole call.
\<close>

function extractComments :: "jsval \<Rightarrow> js_error + comment_record list"
  and extractLoop :: "jsval list \<Rightarrow> comment_record list \<Rightarrow> js_error + comment_record list"
where
  "extractComments children =
     (case iterate children of
        Inl e \<Rightarrow> Inl e
      | Inr xs \<Rightarrow> extractLoop xs [])"
| "extractLoop [] comments = Inr comments"
| "extractLoop (child # rest) comments =
     (case member child ''kind'' of
        Inl e \<Rightarrow> Inl e
      | Inr kind \<Rightarrow>
          if kind = JStr ''t1'' then
            (case member child ''data'' of
               Inl e \<Rightarrow> Inl e
             | Inr d \<Rightarrow>
                 (case member d ''body'' of
                    Inl e \<Rightarrow> Inl e
                  | Inr b \<Rightarrow>
                      let comments1 = (if truthy b then comments @ [comment_of d] else comments)
                      in if truthy (replies_children d)
                         then (case extractComments (replies_children d) of
                                 Inl e \<Rightarrow> Inl e
                               | Inr sub \<Rightarrow> extractLoop rest (comments1 @ sub))
                         else extractLoop rest comments1))
          else extractLoop rest comments)"
  by pat_completeness auto
termination
proof -
  have map_of_smaller:
    "size v < Suc (size_list (size_prod (\<lambda>_. 0) size) kvs)" if "map_of kvs k = Some v"
    for kvs :: "(string \<times> jsval) list" and k v
    using that by (induction kvs) (auto split: if_splits)
  have lookup_smaller: "size (lookup v k) < size v" if "lookup v k \<noteq> JUndefined" for v k
    using that by (cases v) (auto split: option.splits dest: map_of_smaller)
  have opt_smaller: "size (opt_member v k) < size v" if "opt_member v k \<noteq> JUndefined" for v k
    using that by (auto simp: opt_member_def dest: lookup_smaller split: if_splits)
  have replies_smaller: "size (replies_children d) < size d" if "truthy (replies_children d)" for d
  proof -
    let ?r = "lookup d ''replies''"
    let ?rd = "opt_member ?r ''data''"
    let ?rc = "opt_member ?rd ''children''"
    from that have c: "?rc \<noteq> JUndefined" by (auto simp: replies_children_def)
    then have rd: "?rd \<noteq> JUndefined" by (auto simp: opt_member_def)
    then have r: "?r \<noteq> JUndefined" by (auto simp: opt_member_def)
    have "size ?rc < size ?rd" using c by (rule opt_smaller)
    also have "size ?rd < size ?r" using rd by (rule opt_smaller)
    also have "size ?r < size d" using r by (rule lookup_smaller)
    finally show ?thesis by (simp add: replies_children_def)
  qed
  have member_smaller: "size w \<le> size v" if "member v k = Inr w" for v k w
    using that lookup_smaller[of v k]
    by (cases "lookup v k = JUndefined") (auto simp: member_def split: if_splits)
  show ?thesis
    apply (relation
        "measures [\<lambda>x. case x of Inl c \<Rightarrow> size c | Inr (xs, acc) \<Rightarrow> sum_list (map size xs),
                   \<lambda>x. case x of Inl c \<Rightarrow> 1 | Inr (xs, acc) \<Rightarrow> 0,
                   \<lambda>x. case x of Inl c \<Rightarrow> 0 | Inr (xs, acc) \<Rightarrow> length xs]")
    subgoal by simp
    subgoal for children xs
      by (cases children) (auto simp: size_list_conv_sum_list comp_def)
    subgoal for child rest comments kind d b
      using replies_smaller[of d] member_smaller[of child "''data''" d] by simp
    subgoal by auto
    subgoal by auto
    subgoal by auto
    done
qed

section \<open>The URL resolver\<close>

text \<open>
  The regular expressions of \<open>toRedditJsonUrl\<close> are modelled by matchers that are tried at
  each start position from the left, as \<^verbatim>\<open>String.prototype.match\<close> and
  \<^verbatim>\<open>String.prototype.replace\<close> do for a pattern without the \<^verbatim>\<open>g\<close> flag.
\<close>

text \<open>The \<^verbatim>\<open>i\<close> flag compares characters after mapping the letters a to z to upper case.
  (Without the \<^verbatim>\<open>u\<close> flag no character outside ASCII is mapped to an ASCII letter, so for
  the ASCII patterns of this program nothing else takes part.)\<close>

definition canonicalize :: "char \<Rightarrow> char" where
  "canonicalize c =
     (case map_of (zip ''abcdefghijklmnopqrstuvwxyz'' ''ABCDEFGHIJKLMNOPQRSTUVWXYZ'') c of
        None \<Rightarrow> c
      | Some u \<Rightarrow> u)"

text \<open>A literal pattern at the start of the input; the result is the rest of the input.\<close>

fun strip_prefix :: "string \<Rightarrow> string \<Rightarrow> string option" where
  "strip_prefix [] s = Some s"
| "strip_prefix (p # ps) [] = None"
| "strip_prefix (p # ps) (c # cs) = (if p = c then strip_prefix ps cs else None)"

fun strip_prefix_ci :: "string \<Rightarrow> string \<Rightarrow> string option" where
  "strip_prefix_ci [] s = Some s"
| "strip_prefix_ci (p # ps) [] = None"
| "strip_prefix_ci (p # ps) (c # cs) =
     (if canonicalize p = canonicalize c then strip_prefix_ci ps cs else None)"

text \<open>The character classes \<^verbatim>\<open>[^/]\<close> and, under the \<^verbatim>\<open>i\<close> flag, \<^verbatim>\<open>[a-z0-9]\<close>.\<close>

definition not_slash :: "char \<Rightarrow> bool" where
  "not_slash c \<longleftrightarrow> c \<noteq> CHR ''/''"

definition alnum :: "char \<Rightarrow> bool" where
  "alnum c \<longleftrightarrow> canonicalize c \<in> set ''ABCDEFGHIJKLMNOPQRSTUVWXYZ0123456789''"

text \<open>
  \<^verbatim>\<open>/\/r\/([^/]+)\/comments\/([^/]+)/i\<close> anchored at the start of \<open>s\<close>, giving the two
  groups.  A greedy \<^verbatim>\<open>[^/]+\<close> followed by a slash (or by nothing) can only end where the
  run of non-slash characters ends, so no backtracking is involved.
\<close>

definition match_sub_id :: "string \<Rightarrow> (string \<times> string) option" where
  "match_sub_id s =
     (case strip_prefix_ci ''/r/'' s of
        None \<Rightarrow> None
      | Some s1 \<Rightarrow>
          if takeWhile not_slash s1 = [] then None
          else (case strip_prefix_ci ''/comments/'' (dropWhile not_slash s1) of
                  None \<Rightarrow> None
                | Some s2 \<Rightarrow>
                    if takeWhile not_slash s2 = [] then None
                    else Some (takeWhile not_slash s1, takeWhile not_slash s2)))"

text \<open>\<^verbatim>\<open>/\/comments\/([^/]+)/i\<close> anchored at the start of \<open>s\<close>.\<close>

definition match_id :: "string \<Rightarrow> string option" where
  "match_id s =
     (case strip_prefix_ci ''/comments/'' s of
        None \<Rightarrow> None
      | Some s1 \<Rightarrow> if takeWhile not_slash s1 = [] then None else Some (takeWhile not_slash s1))"

text \<open>\<^verbatim>\<open>/\/comments\/([a-z0-9]+)/i\<close> anchored at the start of \<open>s\<close>.\<close>

definition match_alnum_id :: "string \<Rightarrow> string option" where
  "match_alnum_id s =
     (case strip_prefix_ci ''/comments/'' s of
        None \<Rightarrow> None
      | Some s1 \<Rightarrow> if takeWhile alnum s1 = [] then None else Some (takeWhile alnum s1))"

text \<open>\<^verbatim>\<open>/(old|mobile|pay)\.reddit\.com/\<close> anchored at the start of \<open>s\<close>, giving what
  follows the match.\<close>

definition match_alt_host :: "string \<Rightarrow> string option" where
  "match_alt_host s =
     (case strip_prefix ''old.reddit.com'' s of
        Some r \<Rightarrow> Some r
      | None \<Rightarrow>
          (case strip_prefix ''mobile.reddit.com'' s of
             Some r \<Rightarrow> Some r
           | None \<Rightarrow> strip_prefix ''pay.reddit.com'' s))"

text \<open>The leftmost match: the start positions \<open>0\<close> to \<open>length s\<close> in order.\<close>

fun search :: "(string \<Rightarrow> 'a option) \<Rightarrow> string \<Rightarrow> 'a option" where
  "search m [] = m []"
| "search m (c # cs) = (case m (c # cs) of Some r \<Rightarrow> Some r | None \<Rightarrow> search m cs)"

text \<open>\<^verbatim>\<open>s.replace(/(old|mobile|pay)\.reddit\.com/, "www.reddit.com")\<close>: the first match only.\<close>

fun replace_host :: "string \<Rightarrow> string" where
  "replace_host [] = []"
| "replace_host (c # cs) =
     (case match_alt_host (c # cs) of
        Some r \<Rightarrow> ''www.reddit.com'' @ r
      | None \<Rightarrow> c # replace_host cs)"

text \<open>\<^verbatim>\<open>userUrl.split("?")[0].replace(/\/+$/, "")\<close>\<close>

definition cleaned :: "string \<Rightarrow> string" where
  "cleaned userUrl =
     rev (dropWhile (\<lambda>c. c = CHR ''/'') (rev (takeWhile (\<lambda>c. c \<noteq> CHR ''?'') userUrl)))"

text \<open>\<^verbatim>\<open>if (!cleaned.endsWith(".json")) cleaned += ".json"\<close>\<close>

definition add_json :: "string \<Rightarrow> string" where
  "add_json s = (if suffix ''.json'' s then s else s @ ''.json'')"

text \<open>index.js, lines 137 to 152: the credentialed variant; \<open>None\<close> is \<^verbatim>\<open>null\<close>.\<close>

definition toRedditJsonUrl :: "string \<Rightarrow> string option" where
  "toRedditJsonUrl userUrl =
     (case search match_sub_id userUrl of
        Some (sub, ident) \<Rightarrow>
          Some (''https://oauth.reddit.com/r/'' @ sub @ ''/comments/'' @ ident)
      | None \<Rightarrow>
          (case search match_id userUrl of
             Some ident \<Rightarrow> Some (''https://oauth.reddit.com/comments/'' @ ident)
           | None \<Rightarrow> None))"

text \<open>src/unnamed/part_000, lines 90 to 102: the public variant with the short link.\<close>

definition toRedditJsonUrl_www :: "string \<Rightarrow> string" where
  "toRedditJsonUrl_www userUrl =
     (case search match_alnum_id userUrl of
        Some ident \<Rightarrow> ''https://www.reddit.com/comments/'' @ ident @ ''.json''
      | None \<Rightarrow> add_json (cleaned userUrl))"

text \<open>src/unnamed/part_000, lines 261 to 265: the plain variant.\<close>

definition toRedditJsonUrl_plain :: "string \<Rightarrow> string" where
  "toRedditJsonUrl_plain userUrl = add_json (cleaned userUrl)"

text \<open>src/unnamed/part_001, lines 90 to 96: the variant that rewrites the host name.\<close>

definition toRedditJsonUrl_rewrite :: "string \<Rightarrow> string" where
  "toRedditJsonUrl_rewrite userUrl = replace_host (add_json (cleaned userUrl))"

text \<open>
  A thread identifier can be extracted from a string when it contains \<^verbatim>\<open>/comments/\<close> (in
  any letter case) directly followed by a character other than a slash.  This is stated
  over positions of the string, not through the matchers above.
\<close>

definition has_thread_id :: "string \<Rightarrow> bool" where
  "has_thread_id u \<longleftrightarrow>
     (\<exists>i < length u. i + 10 < length u \<and>
        map canonicalize (take 10 (drop i u)) = ''/COMMENTS/'' \<and> u ! (i + 10) \<noteq> CHR ''/'')"

text \<open>The pattern of the short link, \<^verbatim>\<open>/comments/\<close> and one letter or digit, stands at
  position \<open>i\<close>.\<close>

definition short_link_at :: "string \<Rightarrow> nat \<Rightarrow> bool" where
  "short_link_at s i \<longleftrightarrow>
     i + 10 < length s \<and>
     map canonicalize (take 10 (drop i s)) = map canonicalize ''/comments/'' \<and>
     alnum (s ! (i + 10))"

text \<open>An alternate front-end host name occurs in the string.\<close>

definition has_alt_host :: "string \<Rightarrow> bool" where
  "has_alt_host u \<longleftrightarrow>
     (\<exists>i < length u. \<exists>h \<in> {''old.reddit.com'', ''mobile.reddit.com'', ''pay.reddit.com''}.
        take (length h) (drop i u) = h)"

section \<open>The token cache\<close>

text \<open>A JavaScript number as far as the expiry arithmetic needs it: not-a-number, or an
  integer (the clock counts whole milliseconds).\<close>

datatype jsnum = NaN | Fin int

fun num_add :: "jsnum \<Rightarrow> jsnum \<Rightarrow> jsnum" where
  "num_add (Fin a) (Fin b) = Fin (a + b)"
| "num_add a b = NaN"

fun num_sub :: "jsnum \<Rightarrow> jsnum \<Rightarrow> jsnum" where
  "num_sub (Fin a) (Fin b) = Fin (a - b)"
| "num_sub a b = NaN"

fun num_mul :: "jsnum \<Rightarrow> jsnum \<Rightarrow> jsnum" where
  "num_mul (Fin a) (Fin b) = Fin (a * b)"
| "num_mul a b = NaN"

fun num_less :: "jsnum \<Rightarrow> jsnum \<Rightarrow> bool" where
  "num_less (Fin a) (Fin b) = (a < b)"
| "num_less a b = False"

text \<open>The conversion applied by \<^verbatim>\<open>*\<close> to its operand.  The conversion of strings, arrays
  and objects is a parameter.\<close>

fun number_of :: "(jsval \<Rightarrow> jsnum) \<Rightarrow> jsval \<Rightarrow> jsnum" where
  "number_of conv (JNum n) = Fin n"
| "number_of conv JUndefined = NaN"
| "number_of conv JNull = Fin 0"
| "number_of conv (JBool b) = Fin (if b then 1 else 0)"
| "number_of conv v = conv v"

text \<open>The module variables \<^verbatim>\<open>cachedToken\<close> and \<^verbatim>\<open>tokenExpiry\<close> (index.js, lines 29, 30).\<close>

record token_state =
  cachedToken :: jsval
  tokenExpiry :: jsnum

definition initial_state :: token_state where
  "initial_state = \<lparr>cachedToken = JNull, tokenExpiry = Fin 0\<rparr>"

text \<open>What a \<^verbatim>\<open>fetch\<close> resolves to: the status, and what reading the body as text and as
  JSON would give; each of the two reads can reject.\<close>

record http_response =
  status :: nat
  text_result :: "js_error + string"
  json_result :: "js_error + jsval"

text \<open>\<^verbatim>\<open>response.ok\<close>\<close>

definition ok :: "http_response \<Rightarrow> bool" where
  "ok r \<longleftrightarrow> 200 \<le> status r \<and> status r \<le> 299"

text \<open>The HTTP requests the server sends: the credential exchange (with the client
  identifier and secret), and the GET of a thread with its bearer token, if any.\<close>

datatype request =
    TokenRequest string string
  | ThreadRequest string "jsval option"

text \<open>
  Everything outside the process that one request handler reads: the two environment
  variables, the clock at the two calls of \<^verbatim>\<open>Date.now()\<close>, and what the network would
  answer to each request.
\<close>

record world =
  client_id :: "string option"
  client_secret :: "string option"
  now_check :: int
  now_store :: int
  answer :: "request \<Rightarrow> js_error + http_response"
  conv_number :: "jsval \<Rightarrow> jsnum"

text \<open>
  \<open>getRedditToken\<close> (index.js, lines 32 to 72).  The result is the returned value (\<open>JNull\<close>
  for \<^verbatim>\<open>null\<close>), the module variables afterwards and the requests sent.
\<close>

definition getRedditToken :: "world \<Rightarrow> token_state \<Rightarrow> jsval \<times> token_state \<times> request list" where
  "getRedditToken w st =
     (case (client_id w, client_secret w) of
        (Some ident, Some secret) \<Rightarrow>
          if ident = [] \<or> secret = [] then (JNull, st, [])
          else if truthy (cachedToken st) \<and>
                  num_less (Fin (now_check w)) (num_sub (tokenExpiry st) (Fin 60000))
          then (cachedToken st, st, [])
          else
            (case answer w (TokenRequest ident secret) of
               Inl e \<Rightarrow> (JNull, st, [TokenRequest ident secret])
             | Inr response \<Rightarrow>
                 (case json_result response of
                    Inl e \<Rightarrow> (JNull, st, [TokenRequest ident secret])
                  | Inr data \<Rightarrow>
                      (case member data ''access_token'' of
                         Inl e \<Rightarrow> (JNull, st, [TokenRequest ident secret])
                       | Inr tok \<Rightarrow>
                           if truthy tok
                           then (tok,
                                 \<lparr>cachedToken = tok,
                                  tokenExpiry =
                                    num_add (Fin (now_store w))
                                      (num_mul (number_of (conv_number w) (lookup data ''expires_in''))
                                         (Fin 1000))\<rparr>,
                                 [TokenRequest ident secret])
                           else (JNull, st, [TokenRequest ident secret]))))
      | _ \<Rightarrow> (JNull, st, []))"

section \<open>The request handler\<close>

text \<open>
  What the handler sends back: \<^verbatim>\<open>res.status(code).json(payload)\<close>.  \<open>StatusMessage p n\<close> is
  the error message made of \<open>p\<close> and the decimal digits of \<open>n\<close>; \<open>Caught e\<close> is the message
  of the exception \<open>e\<close> that reached the \<^verbatim>\<open>catch\<close> block.
\<close>

datatype payload =
    ErrorMessage string
  | StatusMessage string nat
  | Caught js_error
  | ThreadResult jsval jsval "comment_record list"

record reply =
  code :: nat
  payload :: payload

text \<open>A method of \<^verbatim>\<open>String.prototype\<close> called on the \<^verbatim>\<open>url\<close> of the request body: a
  value that is not a string has no such method.\<close>

fun on_string :: "(string \<Rightarrow> 'a) \<Rightarrow> jsval \<Rightarrow> js_error + 'a" where
  "on_string f (JStr s) = Inr (f s)"
| "on_string f v = Inl TypeError"

text \<open>\<^verbatim>\<open>v[0]\<close> and \<^verbatim>\<open>v[1]\<close>; the index of an object is the property named by its digit.\<close>

fun index_key :: "nat \<Rightarrow> string" where
  "index_key 0 = ''0''"
| "index_key (Suc n) = ''1''"

fun elem :: "jsval \<Rightarrow> nat \<Rightarrow> jsval" where
  "elem (JArr xs) i = (if i < length xs then xs ! i else JUndefined)"
| "elem (JStr s) i = (if i < length s then JStr [s ! i] else JUndefined)"
| "elem v i = lookup v (index_key i)"

definition index :: "jsval \<Rightarrow> nat \<Rightarrow> js_error + jsval" where
  "index v i = (if nullish v then Inl TypeError else Inr (elem v i))"

definition opt_index :: "jsval \<Rightarrow> nat \<Rightarrow> jsval" where
  "opt_index v i = (if nullish v then JUndefined else elem v i)"

text \<open>The part of the handler after \<^verbatim>\<open>response.json()\<close> (index.js, lines 197 to 205).\<close>

definition assemble :: "jsval \<Rightarrow> js_error + reply" where
  "assemble json =
     (case index json 0 of
        Inl e \<Rightarrow> Inl e
      | Inr j0 \<Rightarrow>
          let postData =
                coalesce
                  (opt_member (opt_index (opt_member (opt_member j0 ''data'') ''children'') 0) ''data'')
                  (JObj [])
          in (case index json 1 of
                Inl e \<Rightarrow> Inl e
              | Inr j1 \<Rightarrow>
                  (case extractComments
                          (coalesce (opt_member (opt_member j1 ''data'') ''children'') (JArr [])) of
                     Inl e \<Rightarrow> Inl e
                   | Inr comments \<Rightarrow>
                       Inr \<lparr>code = 200,
                            payload =
                              ThreadResult (coalesce (lookup postData ''title'') (JStr []))
                                (coalesce (lookup postData ''selftext'') (JStr [])) comments\<rparr>)))"

text \<open>The \<^verbatim>\<open>catch\<close> block of the handler.\<close>

definition caught :: "js_error \<Rightarrow> reply" where
  "caught e = \<lparr>code = 500, payload = Caught e\<rparr>"

text \<open>
  What the handler does with a response of the thread endpoint (index.js, lines 185 to
  205); \<open>lead\<close> is the text in front of the status in the error message.
\<close>

definition handle_response :: "string \<Rightarrow> http_response \<Rightarrow> reply" where
  "handle_response lead response =
     (if \<not> ok response
      then (case text_result response of
              Inl e \<Rightarrow> caught e
            | Inr textHint \<Rightarrow>
                \<lparr>code = status response, payload = StatusMessage lead (status response)\<rparr>)
      else (case json_result response of
              Inl e \<Rightarrow> caught e
            | Inr json \<Rightarrow> (case assemble json of Inl e \<Rightarrow> caught e | Inr r \<Rightarrow> r)))"

text \<open>
  The handler of \<^verbatim>\<open>POST /api/scrape\<close> in index.js (lines 155 to 210), applied to the
  parsed request body.  The result is the reply, the module variables afterwards and the
  requests sent, in order.
\<close>

definition scrape :: "world \<Rightarrow> token_state \<Rightarrow> jsval \<Rightarrow> reply \<times> token_state \<times> request list" where
  "scrape w st req_body =
     (case member req_body ''url'' of
        Inl e \<Rightarrow> (caught e, st, [])
      | Inr url \<Rightarrow>
          if \<not> truthy url then (\<lparr>code = 400, payload = ErrorMessage ''URL is required''\<rparr>, st, [])
          else
            (case on_string toRedditJsonUrl url of
               Inl e \<Rightarrow> (caught e, st, [])
             | Inr None \<Rightarrow>
                 (\<lparr>code = 400, payload = ErrorMessage ''Invalid Reddit URL format''\<rparr>, st, [])
             | Inr (Some jsonUrl) \<Rightarrow>
                 if jsonUrl = []
                 then (\<lparr>code = 400, payload = ErrorMessage ''Invalid Reddit URL format''\<rparr>, st, [])
                 else
                   (case getRedditToken w st of
                      (token, st1, sent) \<Rightarrow>
                        if \<not> truthy token
                        then (\<lparr>code = 500,
                               payload = ErrorMessage
                                 ''Could not authenticate with Reddit. Check API credentials.''\<rparr>,
                              st1, sent)
                        else
                          (case answer w (ThreadRequest jsonUrl (Some token)) of
                             Inl e \<Rightarrow>
                               (caught e, st1, sent @ [ThreadRequest jsonUrl (Some token)])
                           | Inr response \<Rightarrow>
                               (handle_response ''Reddit API returned status '' response, st1,
                                sent @ [ThreadRequest jsonUrl (Some token)])))))"

text \<open>The handler of src/unnamed/part_000, lines 105 to 150: no token, and the resolver
  that cannot fail.\<close>

definition scrape_www :: "world \<Rightarrow> jsval \<Rightarrow> reply \<times> request list" where
  "scrape_www w req_body =
     (case member req_body ''url'' of
        Inl e \<Rightarrow> (caught e, [])
      | Inr url \<Rightarrow>
          if \<not> truthy url then (\<lparr>code = 400, payload = ErrorMessage ''URL is required''\<rparr>, [])
          else
            (case on_string toRedditJsonUrl_www url of
               Inl e \<Rightarrow> (caught e, [])
             | Inr jsonUrl \<Rightarrow>
                 (case answer w (ThreadRequest jsonUrl None) of
                    Inl e \<Rightarrow> (caught e, [ThreadRequest jsonUrl None])
                  | Inr response \<Rightarrow>
                      (handle_response ''Reddit returned status '' response,
                       [ThreadRequest jsonUrl None]))))"

section \<open>Notions used in the statements\<close>

text \<open>Two results in sequence: the first error is the result, otherwise the lists are
  joined.\<close>

definition seq_append :: "js_error + 'a list \<Rightarrow> js_error + 'a list \<Rightarrow> js_error + 'a list" where
  "seq_append a b =
     (case a of
        Inl e \<Rightarrow> Inl e
      | Inr xs \<Rightarrow> (case b of Inl e \<Rightarrow> Inl e | Inr ys \<Rightarrow> Inr (xs @ ys)))"

text \<open>The record of a comment node \<open>c\<close> itself, if it has one, and the records of its
  replies.\<close>

definition own_record :: "jsval \<Rightarrow> comment_record list" where
  "own_record c =
     (if truthy (lookup (lookup c ''data'') ''body'') then [comment_of (lookup c ''data'')] else [])"

definition reply_records :: "jsval \<Rightarrow> js_error + comment_record list" where
  "reply_records c =
     (if truthy (replies_children (lookup c ''data''))
      then extractComments (replies_children (lookup c ''data''))
      else Inr [])"

text \<open>Every value nested in a value, the value itself included.\<close>

fun subvalues :: "jsval \<Rightarrow> jsval set" where
  "subvalues (JArr xs) = insert (JArr xs) (\<Union>x \<in> set xs. subvalues x)"
| "subvalues (JObj kvs) = insert (JObj kvs) (\<Union>(k, v) \<in> set kvs. subvalues v)"
| "subvalues v = {v}"

text \<open>The record \<open>r\<close> is the one of node \<open>n\<close>, a node of kind \<^verbatim>\<open>t1\<close> with a truthy body.\<close>

definition emitted_by :: "jsval \<Rightarrow> comment_record \<Rightarrow> bool" where
  "emitted_by n r \<longleftrightarrow>
     lookup n ''kind'' = JStr ''t1'' \<and> truthy (lookup (lookup n ''data'') ''body'') \<and>
     r = comment_of (lookup n ''data'')"

subsection \<open>A sample thread\<close>

text \<open>A listing of comments, and a comment node with the given fields.\<close>

definition listing :: "jsval list \<Rightarrow> jsval" where
  "listing kids = JObj [(''kind'', JStr ''Listing''), (''data'', JObj [(''children'', JArr kids)])]"

definition t1_node :: "(string \<times> jsval) list \<Rightarrow> jsval" where
  "t1_node props = JObj [(''kind'', JStr ''t1''), (''data'', JObj props)]"

text \<open>Comment A (\<^verbatim>\<open>hi\<close>) has the replies B (\<^verbatim>\<open>yo\<close>) and C; C has no body and one reply D
  (\<^verbatim>\<open>hey\<close>).\<close>

definition node_D :: jsval where
  "node_D = t1_node [(''author'', JStr ''dee''), (''body'', JStr ''hey''), (''score'', JNum 4),
                     (''created_utc'', JNum 104), (''replies'', JStr [])]"

definition node_C :: jsval where
  "node_C = t1_node [(''author'', JStr ''cee''), (''replies'', listing [node_D])]"

definition node_B :: jsval where
  "node_B = t1_node [(''body'', JStr ''yo''), (''replies'', JStr [])]"

definition node_A :: jsval where
  "node_A = t1_node [(''author'', JStr []), (''body'', JStr ''hi''), (''score'', JNum 2),
                     (''created_utc'', JNum 101), (''replies'', listing [node_B, node_C])]"

definition record_A :: comment_record where
  "record_A = \<lparr>author = JStr [], body = JStr ''hi'', score = JNum 2, created_utc = JNum 101\<rparr>"

definition record_B :: comment_record where
  "record_B = \<lparr>author = JStr ''[deleted]'', body = JStr ''yo'', score = JNum 0, created_utc = JNull\<rparr>"

definition record_D :: comment_record where
  "record_D = \<lparr>author = JStr ''dee'', body = JStr ''hey'', score = JNum 4, created_utc = JNum 104\<rparr>"

subsection \<open>The states of the token cache\<close>

text \<open>The values the module variables can take while the two environment variables stay
  \<open>cid\<close> and \<open>secret\<close>: the initial ones, and those left by a call of \<open>getRedditToken\<close>.\<close>

inductive reachable :: "string option \<Rightarrow> string option \<Rightarrow> token_state \<Rightarrow> bool"
  for cid secret
where
  start: "reachable cid secret initial_state"
| call: "reachable cid secret st \<Longrightarrow> client_id w = cid \<Longrightarrow> client_secret w = secret \<Longrightarrow>
         getRedditToken w st = (tok, st1, sent) \<Longrightarrow> reachable cid secret st1"

subsection \<open>A sample exchange\<close>

text \<open>The token endpoint grants a token for an hour.  The thread endpoint answers 403;
  in \<open>blocked_world\<close> the body of that answer can be read, in \<open>broken_world\<close> the
  connection breaks while the body is read.\<close>

definition token_response :: http_response where
  "token_response =
     \<lparr>status = 200, text_result = Inr [],
      json_result = Inr (JObj [(''access_token'', JStr ''tok''), (''expires_in'', JNum 3600)])\<rparr>"

definition blocked_response :: http_response where
  "blocked_response =
     \<lparr>status = 403, text_result = Inr ''<html>blocked</html>'', json_result = Inl SyntaxError\<rparr>"

definition broken_response :: http_response where
  "broken_response =
     \<lparr>status = 403, text_result = Inl (NetworkError ''Premature close''),
      json_result = Inl (NetworkError ''Premature close'')\<rparr>"

definition world_with :: "http_response \<Rightarrow> int \<Rightarrow> world" where
  "world_with r t =
     \<lparr>client_id = Some ''id'', client_secret = Some ''secret'',
      now_check = t, now_store = t + 200,
      answer = (\<lambda>q. case q of TokenRequest a b \<Rightarrow> Inr token_response
                           | ThreadRequest u b \<Rightarrow> Inr r),
      conv_number = (\<lambda>v. NaN)\<rparr>"

definition blocked_world :: world where
  "blocked_world = world_with blocked_response 1000"

definition broken_world :: world where
  "broken_world = world_with broken_response 1000"

text \<open>A world without credentials.\<close>

definition bare_world :: world where
  "bare_world = (world_with blocked_response 1000)\<lparr>client_id := None\<rparr>"

definition sample_request :: jsval where
  "sample_request = JObj [(''url'', JStr ''https://www.reddit.com/r/pics/comments/1abc9z/a_title/'')]"

definition cached_state :: token_state where
  "cached_state = \<lparr>cachedToken = JStr ''tok'', tokenExpiry = Fin 3601200\<rparr>"


section \<open>Properties of the comment flattener\<close>

lemma size_map_of:
  "map_of kvs k = Some v \<Longrightarrow> size v < Suc (size_list (size_prod (\<lambda>_. 0) size) kvs)"
  by (induction kvs) (auto split: if_splits)

lemma size_lookup_less: "lookup v k \<noteq> JUndefined \<Longrightarrow> size (lookup v k) < size v"
  by (cases v) (auto split: option.splits dest: size_map_of)

lemma size_opt_member_less:
  "opt_member v k \<noteq> JUndefined \<Longrightarrow> size (opt_member v k) < size v"
  by (auto simp: opt_member_def dest: size_lookup_less split: if_splits)

lemma size_replies_children:
  assumes "truthy (replies_children d)"
  shows "size (replies_children d) < size d"
proof -
  let ?r = "lookup d ''replies''"
  let ?rd = "opt_member ?r ''data''"
  let ?rc = "opt_member ?rd ''children''"
  from assms have c: "?rc \<noteq> JUndefined" by (auto simp: replies_children_def)
  then have rd: "?rd \<noteq> JUndefined" by (auto simp: opt_member_def)
  then have r: "?r \<noteq> JUndefined" by (auto simp: opt_member_def)
  have "size ?rc < size ?rd" using c by (rule size_opt_member_less)
  also have "size ?rd < size ?r" using rd by (rule size_opt_member_less)
  also have "size ?r < size d" using r by (rule size_lookup_less)
  finally show ?thesis by (simp add: replies_children_def)
qed

lemma size_member_le: "member v k = Inr w \<Longrightarrow> size w \<le> size v"
  by (cases "lookup v k = JUndefined")
     (auto simp: member_def dest: size_lookup_less split: if_splits)


lemma extractLoop_Cons:
  "extractLoop (c # rest) acc =
     (case extractLoop [c] [] of Inl e \<Rightarrow> Inl e | Inr a \<Rightarrow> extractLoop rest (acc @ a))"
  by (simp split: sum.splits add: Let_def)

lemma extractComments_JArr: "extractComments (JArr xs) = extractLoop xs []"
  by simp

declare extractLoop.simps(2) [simp del]
declare extractComments.simps [simp del]

lemma extractLoop_acc:
  "extractLoop xs acc = (case extractLoop xs [] of Inl e \<Rightarrow> Inl e | Inr r \<Rightarrow> Inr (acc @ r))"
proof (induction xs arbitrary: acc)
  case Nil
  show ?case by simp
next
  case (Cons c rest)
  show ?case
  proof (cases "extractLoop [c] []")
    case (Inl e)
    then show ?thesis
      by (subst extractLoop_Cons, subst (2) extractLoop_Cons) simp
  next
    case (Inr a)
    have l: "extractLoop (c # rest) acc = extractLoop rest (acc @ a)"
      by (subst extractLoop_Cons) (simp add: Inr)
    have r: "extractLoop (c # rest) [] = extractLoop rest a"
      by (subst extractLoop_Cons) (simp add: Inr)
    have l': "extractLoop rest (acc @ a) =
          (case extractLoop rest [] of Inl e \<Rightarrow> Inl e | Inr r \<Rightarrow> Inr ((acc @ a) @ r))"
      by (rule Cons.IH)
    have r': "extractLoop rest a =
          (case extractLoop rest [] of Inl e \<Rightarrow> Inl e | Inr r \<Rightarrow> Inr (a @ r))"
      by (rule Cons.IH)
    show ?thesis
      unfolding l r l' r' by (cases "extractLoop rest []") simp_all
  qed
qed

lemma extractComments_Cons:
  "extractComments (JArr (c # rest)) =
     seq_append (extractComments (JArr [c])) (extractComments (JArr rest))"
proof -
  have "extractLoop (c # rest) [] =
        (case extractLoop [c] [] of Inl e \<Rightarrow> Inl e | Inr a \<Rightarrow> extractLoop rest a)"
    by (subst extractLoop_Cons) (cases "extractLoop [c] []"; simp)
  also have "\<dots> = seq_append (extractLoop [c] []) (extractLoop rest [])"
    by (cases "extractLoop [c] []"; simp add: seq_append_def)
       (subst extractLoop_acc, simp split: sum.splits)
  finally show ?thesis by (simp add: extractComments_JArr)
qed

lemma extractComments_Nil: "extractComments (JArr []) = Inr []"
  by (simp add: extractComments_JArr)

lemma seq_append_assoc: "seq_append (seq_append a b) c = seq_append a (seq_append b c)"
  by (simp add: seq_append_def split: sum.splits)

lemma seq_append_Nil [simp]: "seq_append (Inr []) b = b"
  by (simp add: seq_append_def split: sum.splits)

lemma extractComments_append:
  "extractComments (JArr (xs @ ys)) =
     seq_append (extractComments (JArr xs)) (extractComments (JArr ys))"
proof (induction xs)
  case Nil
  show ?case by (simp add: extractComments_Nil)
next
  case (Cons x xs)
  have "extractComments (JArr ((x # xs) @ ys)) =
        seq_append (extractComments (JArr [x])) (extractComments (JArr (xs @ ys)))"
    using extractComments_Cons[of x "xs @ ys"] by simp
  also have "\<dots> = seq_append (seq_append (extractComments (JArr [x])) (extractComments (JArr xs)))
                        (extractComments (JArr ys))"
    by (simp only: Cons.IH seq_append_assoc)
  also have "\<dots> = seq_append (extractComments (JArr (x # xs))) (extractComments (JArr ys))"
    using extractComments_Cons[of x xs] by simp
  finally show ?case .
qed

text \<open>One loop iteration on a comment node.\<close>

lemma extractComments_t1:
  assumes "lookup c ''kind'' = JStr ''t1''" and "\<not> nullish (lookup c ''data'')"
  shows "extractComments (JArr [c]) =
     seq_append (Inr (if truthy (lookup (lookup c ''data'') ''body'')
                      then [comment_of (lookup c ''data'')] else []))
       (if truthy (replies_children (lookup c ''data''))
        then extractComments (replies_children (lookup c ''data'')) else Inr [])"
proof -
  from assms(1) have nn: "\<not> nullish c" by (cases c) auto
  show ?thesis
    using assms nn
    by (simp add: extractComments_JArr extractLoop.simps(2) member_def Let_def seq_append_def
             split: sum.splits)
qed


lemma extractComments_single:
  "extractComments (JArr [c]) =
     (if nullish c then Inl TypeError
      else if lookup c ''kind'' \<noteq> JStr ''t1'' then Inr []
      else if nullish (lookup c ''data'') then Inl TypeError
      else seq_append (Inr (own_record c)) (reply_records c))"
  by (simp add: extractComments_JArr extractLoop.simps(2) member_def Let_def seq_append_def
        own_record_def reply_records_def split: sum.splits)

lemma extractComments_JStr: "extractComments (JStr s) = Inr []"
proof -
  have "extractLoop (map (\<lambda>c. JStr [c]) s) acc = Inr acc" for acc
    by (induction s) (simp_all add: extractLoop.simps(2) member_def)
  then show ?thesis by (simp add: extractComments.simps)
qed

lemma subvalues_self [simp]: "v \<in> subvalues v"
  by (cases v) simp_all

lemma subvalues_lookup: "lookup v k \<noteq> JUndefined \<Longrightarrow> subvalues (lookup v k) \<subseteq> subvalues v"
  by (cases v) (auto split: option.splits dest!: map_of_SomeD)

lemma subvalues_opt_member:
  "opt_member v k \<noteq> JUndefined \<Longrightarrow> subvalues (opt_member v k) \<subseteq> subvalues v"
  using subvalues_lookup[of v k] by (auto simp: opt_member_def split: if_splits)

lemma subvalues_replies_children:
  assumes "truthy (replies_children d)"
  shows "subvalues (replies_children d) \<subseteq> subvalues d"
proof -
  let ?r = "lookup d ''replies''"
  let ?rd = "opt_member ?r ''data''"
  let ?rc = "opt_member ?rd ''children''"
  from assms have c: "?rc \<noteq> JUndefined" by (auto simp: replies_children_def)
  then have rd: "?rd \<noteq> JUndefined" by (auto simp: opt_member_def)
  then have r: "?r \<noteq> JUndefined" by (auto simp: opt_member_def)
  have "subvalues ?rc \<subseteq> subvalues ?rd" using c by (rule subvalues_opt_member)
  also have "\<dots> \<subseteq> subvalues ?r" using rd by (rule subvalues_opt_member)
  also have "\<dots> \<subseteq> subvalues d" using r by (rule subvalues_lookup)
  finally show ?thesis by (simp add: replies_children_def)
qed

lemma records_of_node:
  assumes IH: "\<And>v out. size v < size c \<Longrightarrow> extractComments v = Inr out \<Longrightarrow> r \<in> set out
                 \<Longrightarrow> \<exists>n \<in> subvalues v. emitted_by n r"
    and ok: "extractComments (JArr [c]) = Inr a" and r: "r \<in> set a"
  shows "\<exists>n \<in> subvalues c. emitted_by n r"
proof -
  let ?d = "lookup c ''data''"
  from ok r have k: "lookup c ''kind'' = JStr ''t1''" and d: "\<not> nullish ?d"
    by (auto simp: extractComments_single split: if_splits)
  from ok k d obtain sub where sub: "reply_records c = Inr sub" and a: "a = own_record c @ sub"
    by (auto simp: extractComments_single seq_append_def split: if_splits sum.splits)
  from d have dsub: "subvalues ?d \<subseteq> subvalues c" and dsz: "size ?d < size c"
    by (auto intro!: subvalues_lookup size_lookup_less)
  from r a consider "r \<in> set (own_record c)" | "r \<in> set sub" by auto
  then show ?thesis
  proof cases
    case 1
    then have "emitted_by c r" using k by (auto simp: own_record_def emitted_by_def split: if_splits)
    then show ?thesis by (intro bexI[of _ c]) auto
  next
    case 2
    with sub have t: "truthy (replies_children ?d)"
      and e: "extractComments (replies_children ?d) = Inr sub"
      by (auto simp: reply_records_def split: if_splits)
    from size_replies_children[OF t] dsz have "size (replies_children ?d) < size c" by simp
    from IH[OF this e 2] obtain n where "n \<in> subvalues (replies_children ?d)" "emitted_by n r"
      by blast
    with subvalues_replies_children[OF t] dsub show ?thesis by blast
  qed
qed

lemma records_of_list:
  assumes "\<And>c a. c \<in> set xs \<Longrightarrow> extractComments (JArr [c]) = Inr a \<Longrightarrow> r \<in> set a
             \<Longrightarrow> \<exists>n \<in> subvalues c. emitted_by n r"
    and "extractComments (JArr xs) = Inr out" and "r \<in> set out"
  shows "\<exists>c \<in> set xs. \<exists>n \<in> subvalues c. emitted_by n r"
  using assms
proof (induction xs arbitrary: out)
  case Nil
  then show ?case by (simp add: extractComments_Nil)
next
  case (Cons x xs)
  from Cons.prems(2) obtain a b where a: "extractComments (JArr [x]) = Inr a"
    and b: "extractComments (JArr xs) = Inr b" and out: "out = a @ b"
    by (auto simp: extractComments_Cons[of x xs] seq_append_def split: sum.splits)
  from Cons.prems(3) out consider "r \<in> set a" | "r \<in> set b" by auto
  then show ?case
  proof cases
    case 1
    from Cons.prems(1)[OF _ a 1] show ?thesis by auto
  next
    case 2
    have "\<exists>c \<in> set xs. \<exists>n \<in> subvalues c. emitted_by n r"
      by (rule Cons.IH[OF _ b 2]) (auto intro: Cons.prems(1))
    then show ?thesis by auto
  qed
qed

lemma records_have_nodes:
  "extractComments j = Inr out \<Longrightarrow> r \<in> set out \<Longrightarrow> \<exists>n \<in> subvalues j. emitted_by n r"
proof (induction j arbitrary: out rule: measure_induct_rule[where f = size])
  case (less j)
  show ?case
  proof (cases j)
    case (JArr xs)
    have "\<exists>c \<in> set xs. \<exists>n \<in> subvalues c. emitted_by n r"
    proof (rule records_of_list)
      fix c a assume c: "c \<in> set xs" and a: "extractComments (JArr [c]) = Inr a" "r \<in> set a"
      from c have "size c < size j" unfolding JArr
        by (simp add: less_Suc_eq_le size_list_estimation')
      then show "\<exists>n \<in> subvalues c. emitted_by n r"
        using a less.IH by (intro records_of_node[of c r a]) (auto intro: less_trans)
    qed (use less.prems JArr in auto)
    then show ?thesis unfolding JArr by auto
  next
    case (JStr s)
    with less.prems show ?thesis by (simp add: extractComments_JStr)
  qed (use less.prems in \<open>auto simp: extractComments.simps\<close>)
qed


lemma kind_not_nullish: "lookup c k = JStr s \<Longrightarrow> \<not> nullish c"
  by (cases c) auto

lemma example_thread:
  "extractComments (JArr [node_A]) = Inr [record_A, record_B, record_D]"
  by (simp add: extractComments_JArr extractLoop.simps(2) extractComments.simps[of "JStr []"]
        node_A_def node_B_def node_C_def node_D_def t1_node_def listing_def
        record_A_def record_B_def record_D_def member_def opt_member_def
        replies_children_def comment_of_def coalesce_def)

text \<open>
  C1.  The output is the pre-order of the reply tree.  When \<open>extractComments\<close> returns for
  an array in which the comment node \<open>c\<close> stands between the nodes \<open>before\<close> and the nodes
  \<open>after\<close>, its output is, in this order: the output for \<open>before\<close>, the record of \<open>c\<close>, the
  output of \<open>extractComments\<close> for the replies of \<open>c\<close> (so the records of all its
  descendants), and the output for \<open>after\<close>, which starts with the next sibling of \<open>c\<close>.
\<close>

theorem extractComments_preorder:
  assumes "extractComments (JArr (before @ c # after)) = Inr out"
    and "lookup c ''kind'' = JStr ''t1''"
  shows "\<exists>pre sub post.
           extractComments (JArr before) = Inr pre \<and>
           reply_records c = Inr sub \<and>
           extractComments (JArr after) = Inr post \<and>
           out = pre @ own_record c @ sub @ post"
proof -
  have "extractComments (JArr (before @ c # after)) =
        seq_append (extractComments (JArr before))
          (seq_append (extractComments (JArr [c])) (extractComments (JArr after)))"
    using extractComments_append[of before "c # after"] extractComments_Cons[of c after]
    by simp
  with assms(1) obtain pre mid post where pre: "extractComments (JArr before) = Inr pre"
    and mid: "extractComments (JArr [c]) = Inr mid"
    and post: "extractComments (JArr after) = Inr post"
    and out: "out = pre @ mid @ post"
    by (auto simp: seq_append_def split: sum.splits)
  from mid assms(2) obtain sub where "reply_records c = Inr sub" "mid = own_record c @ sub"
    by (auto simp: extractComments_single seq_append_def split: if_splits sum.splits)
  with pre post out show ?thesis by simp
qed

theorem extractComments_preorder_witness:
  "extractComments (JArr ([node_B] @ node_C # [node_A])) =
     Inr [record_B, record_D, record_A, record_B, record_D] \<and>
   lookup node_C ''kind'' = JStr ''t1'' \<and>
   (\<exists>pre sub post.
      extractComments (JArr [node_B]) = Inr pre \<and>
      reply_records node_C = Inr sub \<and>
      extractComments (JArr [node_A]) = Inr post \<and>
      [record_B, record_D, record_A, record_B, record_D] = pre @ own_record node_C @ sub @ post)"
proof -
  have run: "extractComments (JArr ([node_B] @ node_C # [node_A])) =
     Inr [record_B, record_D, record_A, record_B, record_D]"
    by (simp add: extractComments_JArr extractLoop.simps(2) extractComments.simps[of "JStr []"]
        node_A_def node_B_def node_C_def node_D_def t1_node_def listing_def
        record_A_def record_B_def record_D_def member_def opt_member_def
        replies_children_def comment_of_def coalesce_def)
  have kind: "lookup node_C ''kind'' = JStr ''t1''"
    by (simp add: node_C_def t1_node_def)
  show ?thesis
    using run kind extractComments_preorder[OF run kind] by simp
qed

text \<open>
  C2.  Every record of the output is the record of a node of kind \<^verbatim>\<open>t1\<close> with a truthy
  body that occurs in the input.  A node of kind \<^verbatim>\<open>t1\<close> whose body is not truthy gives no
  record of its own, and what it contributes is the output for its replies.  For the sample
  thread, A with the replies B and C, where C has no body and the reply D, the output is
  exactly the records of A, B and D.
\<close>

theorem records_from_comment_nodes:
  "(extractComments j = Inr out \<longrightarrow> r \<in> set out \<longrightarrow>
      (\<exists>n \<in> subvalues j. emitted_by n r) \<and> truthy (body r)) \<and>
   (lookup c ''kind'' = JStr ''t1'' \<longrightarrow> \<not> nullish (lookup c ''data'') \<longrightarrow>
      \<not> truthy (lookup (lookup c ''data'') ''body'') \<longrightarrow>
      extractComments (JArr [c]) = reply_records c) \<and>
   extractComments (JArr [node_A]) = Inr [record_A, record_B, record_D]"
proof (intro conjI impI)
  assume "extractComments j = Inr out" "r \<in> set out"
  then obtain n where n: "n \<in> subvalues j" "emitted_by n r"
    using records_have_nodes by blast
  then show "\<exists>n \<in> subvalues j. emitted_by n r" by blast
  from n show "truthy (body r)" by (simp add: emitted_by_def comment_of_def)
next
  assume "lookup c ''kind'' = JStr ''t1''" "\<not> nullish (lookup c ''data'')"
    "\<not> truthy (lookup (lookup c ''data'') ''body'')"
  then show "extractComments (JArr [c]) = reply_records c"
    by (simp add: extractComments_single own_record_def kind_not_nullish)
next
  show "extractComments (JArr [node_A]) = Inr [record_A, record_B, record_D]"
    by (rule example_thread)
qed

theorem records_from_comment_nodes_witness:
  "extractComments (JArr [node_C]) = Inr [record_D] \<and> record_D \<in> set [record_D] \<and>
   (\<exists>n \<in> subvalues (JArr [node_C]). emitted_by n record_D) \<and> truthy (body record_D) \<and>
   lookup node_C ''kind'' = JStr ''t1'' \<and> \<not> nullish (lookup node_C ''data'') \<and>
   \<not> truthy (lookup (lookup node_C ''data'') ''body'') \<and>
   extractComments (JArr [node_C]) = reply_records node_C"
proof -
  have run: "extractComments (JArr [node_C]) = Inr [record_D]"
    by (simp add: extractComments_JArr extractLoop.simps(2) extractComments.simps[of "JStr []"]
        node_C_def node_D_def t1_node_def listing_def record_D_def member_def opt_member_def
        replies_children_def comment_of_def coalesce_def)
  have node: "lookup node_C ''kind'' = JStr ''t1''" "\<not> nullish (lookup node_C ''data'')"
    "\<not> truthy (lookup (lookup node_C ''data'') ''body'')"
    by (simp_all add: node_C_def t1_node_def)
  show ?thesis
    using run node
      records_from_comment_nodes[of "JArr [node_C]" "[record_D]" record_D node_C]
    by simp
qed

text \<open>
  C7.  The record pushed for a comment node with data object \<open>d\<close>: the author is
  \<^verbatim>\<open>[deleted]\<close> when \<^verbatim>\<open>d.author\<close> is null or undefined and \<^verbatim>\<open>d.author\<close> otherwise; the
  score is 0 when \<^verbatim>\<open>d.score\<close> is null or undefined and \<^verbatim>\<open>d.score\<close> otherwise; the time
  stamp is null when \<^verbatim>\<open>d.created_utc\<close> is null or undefined and \<^verbatim>\<open>d.created_utc\<close>
  otherwise; the body is \<^verbatim>\<open>d.body\<close>.
\<close>

theorem record_defaults:
  assumes "extractComments (JArr (c # rest)) = Inr out"
    and "lookup c ''kind'' = JStr ''t1''"
    and "truthy (lookup (lookup c ''data'') ''body'')"
    and "d = lookup c ''data''"
  shows "out \<noteq> [] \<and>
         author (hd out) =
           (if lookup d ''author'' = JUndefined \<or> lookup d ''author'' = JNull
            then JStr ''[deleted]'' else lookup d ''author'') \<and>
         score (hd out) =
           (if lookup d ''score'' = JUndefined \<or> lookup d ''score'' = JNull
            then JNum 0 else lookup d ''score'') \<and>
         created_utc (hd out) =
           (if lookup d ''created_utc'' = JUndefined \<or> lookup d ''created_utc'' = JNull
            then JNull else lookup d ''created_utc'') \<and>
         body (hd out) = lookup d ''body''"
proof -
  have nullish_iff: "nullish v \<longleftrightarrow> v = JUndefined \<or> v = JNull" for v
    by (cases v) simp_all
  from assms(1) obtain a b where a: "extractComments (JArr [c]) = Inr a" and out: "out = a @ b"
    by (auto simp: extractComments_Cons[of c rest] seq_append_def split: sum.splits)
  from a assms(2,3) obtain sub where "a = comment_of d # sub"
    by (auto simp: extractComments_single seq_append_def own_record_def assms(4)
             split: if_splits sum.splits)
  with out have "out \<noteq> []" "hd out = comment_of d" by simp_all
  then show ?thesis
    by (simp add: comment_of_def coalesce_def nullish_iff)
qed

theorem record_defaults_witness:
  "extractComments (JArr (node_B # [node_A])) = Inr [record_B, record_A, record_B, record_D] \<and>
   lookup node_B ''kind'' = JStr ''t1'' \<and>
   truthy (lookup (lookup node_B ''data'') ''body'') \<and>
   author (hd [record_B, record_A, record_B, record_D]) = JStr ''[deleted]'' \<and>
   score (hd [record_B, record_A, record_B, record_D]) = JNum 0 \<and>
   created_utc (hd [record_B, record_A, record_B, record_D]) = JNull \<and>
   body (hd [record_B, record_A, record_B, record_D]) = JStr ''yo''"
proof -
  have run: "extractComments (JArr (node_B # [node_A])) =
      Inr [record_B, record_A, record_B, record_D]"
    by (simp add: extractComments_JArr extractLoop.simps(2) extractComments.simps[of "JStr []"]
        node_A_def node_B_def node_C_def node_D_def t1_node_def listing_def
        record_A_def record_B_def record_D_def member_def opt_member_def
        replies_children_def comment_of_def coalesce_def)
  have node: "lookup node_B ''kind'' = JStr ''t1''"
    "truthy (lookup (lookup node_B ''data'') ''body'')"
    by (simp_all add: node_B_def t1_node_def)
  have d: "lookup node_B ''data'' = JObj [(''body'', JStr ''yo''), (''replies'', JStr [])]"
    by (simp add: node_B_def t1_node_def)
  show ?thesis
    using run node record_defaults[OF run node d[symmetric]] by simp
qed

text \<open>
  C9.  A node of kind \<^verbatim>\<open>t1\<close> whose body is the empty string gives no record: what it
  contributes is the output for its replies, and nothing at all when it has no replies.
  An author that is the empty string is kept as it is in the record.
\<close>

theorem empty_body_and_author:
  "(lookup c ''kind'' = JStr ''t1'' \<longrightarrow> lookup (lookup c ''data'') ''body'' = JStr [] \<longrightarrow>
      extractComments (JArr [c]) = reply_records c \<and>
      (\<not> truthy (replies_children (lookup c ''data'')) \<longrightarrow> extractComments (JArr [c]) = Inr [])) \<and>
   (extractComments (JArr (c # rest)) = Inr out \<longrightarrow> lookup c ''kind'' = JStr ''t1'' \<longrightarrow>
      truthy (lookup (lookup c ''data'') ''body'') \<longrightarrow>
      lookup (lookup c ''data'') ''author'' = JStr [] \<longrightarrow>
      out \<noteq> [] \<and> author (hd out) = JStr [])"
proof (intro conjI impI)
  assume k: "lookup c ''kind'' = JStr ''t1''" and b: "lookup (lookup c ''data'') ''body'' = JStr []"
  from b have d: "\<not> nullish (lookup c ''data'')" by (cases "lookup c ''data''") auto
  from k b d show e: "extractComments (JArr [c]) = reply_records c"
    by (simp add: extractComments_single own_record_def kind_not_nullish)
  assume "\<not> truthy (replies_children (lookup c ''data''))"
  with e show "extractComments (JArr [c]) = Inr []" by (simp add: reply_records_def)
next
  assume ok: "extractComments (JArr (c # rest)) = Inr out"
    and k: "lookup c ''kind'' = JStr ''t1''"
    and b: "truthy (lookup (lookup c ''data'') ''body'')"
    and au: "lookup (lookup c ''data'') ''author'' = JStr []"
  from ok obtain a b' where a: "extractComments (JArr [c]) = Inr a" and out: "out = a @ b'"
    by (auto simp: extractComments_Cons[of c rest] seq_append_def split: sum.splits)
  from a k b obtain sub where "a = comment_of (lookup c ''data'') # sub"
    by (auto simp: extractComments_single seq_append_def own_record_def
             split: if_splits sum.splits)
  with out au show "out \<noteq> []" "author (hd out) = JStr []"
    by (simp_all add: comment_of_def coalesce_def)
qed

theorem empty_body_and_author_witness:
  "lookup (t1_node [(''body'', JStr [])]) ''kind'' = JStr ''t1'' \<and>
   lookup (lookup (t1_node [(''body'', JStr [])]) ''data'') ''body'' = JStr [] \<and>
   \<not> truthy (replies_children (lookup (t1_node [(''body'', JStr [])]) ''data'')) \<and>
   extractComments (JArr [t1_node [(''body'', JStr [])]]) = Inr [] \<and>
   extractComments (JArr (node_A # [])) = Inr [record_A, record_B, record_D] \<and>
   lookup node_A ''kind'' = JStr ''t1'' \<and>
   truthy (lookup (lookup node_A ''data'') ''body'') \<and>
   lookup (lookup node_A ''data'') ''author'' = JStr [] \<and>
   author (hd [record_A, record_B, record_D]) = JStr []"
proof -
  let ?e = "t1_node [(''body'', JStr [])]"
  have e: "lookup ?e ''kind'' = JStr ''t1''" "lookup (lookup ?e ''data'') ''body'' = JStr []"
    "\<not> truthy (replies_children (lookup ?e ''data''))"
    by (simp_all add: t1_node_def replies_children_def opt_member_def)
  have run: "extractComments (JArr (node_A # [])) = Inr [record_A, record_B, record_D]"
    by (simp add: extractComments_JArr extractLoop.simps(2) extractComments.simps[of "JStr []"]
        node_A_def node_B_def node_C_def node_D_def t1_node_def listing_def
        record_A_def record_B_def record_D_def member_def opt_member_def
        replies_children_def comment_of_def coalesce_def)
  have a: "lookup node_A ''kind'' = JStr ''t1''"
    "truthy (lookup (lookup node_A ''data'') ''body'')"
    "lookup (lookup node_A ''data'') ''author'' = JStr []"
    by (simp_all add: node_A_def t1_node_def)
  have "extractComments (JArr [?e]) = Inr []"
    using e empty_body_and_author[of ?e "[]" "[]"] by blast
  moreover have "author (hd [record_A, record_B, record_D]) = JStr []"
    using run a empty_body_and_author[of node_A "[]" "[record_A, record_B, record_D]"] by blast
  ultimately show ?thesis
    using e run a by simp
qed


section \<open>Properties of the URL resolver\<close>

subsection \<open>Matching\<close>

lemma canonicalize_slash [simp]: "canonicalize c = CHR ''/'' \<longleftrightarrow> c = CHR ''/''"
  by (auto simp: canonicalize_def split: if_splits)

lemma canonicalize_dot [simp]: "canonicalize c = CHR ''.'' \<longleftrightarrow> c = CHR ''.''"
  by (auto simp: canonicalize_def split: if_splits)

lemma canonicalize_comments: "map canonicalize ''/comments/'' = ''/COMMENTS/''"
  by (simp add: canonicalize_def)

lemma strip_prefix_iff: "strip_prefix p s = Some r \<longleftrightarrow> s = p @ r"
  by (induction p s rule: strip_prefix.induct) auto

lemma strip_prefix_ci_iff:
  "strip_prefix_ci p s = Some r \<longleftrightarrow>
     length p \<le> length s \<and> map canonicalize (take (length p) s) = map canonicalize p \<and>
     r = drop (length p) s"
  by (induction p s rule: strip_prefix_ci.induct) auto

lemma strip_prefix_ci_suffix: "strip_prefix_ci p s = Some r \<Longrightarrow> suffix r s"
  by (simp add: strip_prefix_ci_iff suffix_drop)

lemma search_None_iff: "search m s = None \<longleftrightarrow> (\<forall>t. suffix t s \<longrightarrow> m t = None)"
  by (induction s) (auto simp: suffix_Cons split: option.splits)

lemma search_Some_suffix: "search m s = Some r \<Longrightarrow> \<exists>t. suffix t s \<and> m t = Some r"
  by (induction s) (auto simp: suffix_Cons split: option.splits)

lemma suffix_iff_drop: "suffix t s \<longleftrightarrow> (\<exists>i \<le> length s. t = drop i s)"
proof
  assume "suffix t s"
  then obtain p where "s = p @ t" by (auto simp: suffix_def)
  then have "t = drop (length p) s" "length p \<le> length s" by simp_all
  then show "\<exists>i \<le> length s. t = drop i s" by blast
qed (auto simp: suffix_drop)

subsection \<open>The fall-back path\<close>

lemma add_json_suffix: "suffix ''.json'' (add_json s)"
  by (simp add: add_json_def suffix_def)

lemma add_json_same: "suffix ''.json'' s \<Longrightarrow> add_json s = s"
  by (simp add: add_json_def)

lemma strip_prefix_None_iff: "strip_prefix p s = None \<longleftrightarrow> (\<forall>r. s \<noteq> p @ r)"
  using strip_prefix_iff[of p s] by (cases "strip_prefix p s") auto

lemma match_alt_host_iff:
  "match_alt_host s = Some r \<longleftrightarrow>
     s = ''old.reddit.com'' @ r \<or> s = ''mobile.reddit.com'' @ r \<or> s = ''pay.reddit.com'' @ r"
proof (cases "strip_prefix ''old.reddit.com'' s")
  case (Some a)
  then have s: "s = ''old.reddit.com'' @ a" by (simp add: strip_prefix_iff)
  show ?thesis unfolding match_alt_host_def Some by (auto simp: s)
next
  case None
  note old = this
  then have no: "s \<noteq> ''old.reddit.com'' @ r" by (simp add: strip_prefix_None_iff)
  show ?thesis
  proof (cases "strip_prefix ''mobile.reddit.com'' s")
    case (Some a)
    then have s: "s = ''mobile.reddit.com'' @ a" by (simp add: strip_prefix_iff)
    show ?thesis unfolding match_alt_host_def old Some by (auto simp: s)
  next
    case None
    then have nm: "s \<noteq> ''mobile.reddit.com'' @ r" by (simp add: strip_prefix_None_iff)
    show ?thesis unfolding match_alt_host_def old None using no nm
      by (simp add: strip_prefix_iff)
  qed
qed

lemma json_after_host:
  assumes "suffix ''.json'' (h @ r)" and "h \<noteq> []" and "last h = CHR ''m''"
  shows "suffix ''.json'' r"
proof -
  from assms(1) have "suffix ''.json'' r \<or> (\<exists>x. suffix x h \<and> ''.json'' = x @ r)"
    by (auto simp: suffix_append)
  then show ?thesis
  proof
    assume "\<exists>x. suffix x h \<and> ''.json'' = x @ r"
    then obtain x where x: "suffix x h" "''.json'' = x @ r" by blast
    show ?thesis
    proof (cases "x = []")
      case True
      with x(2) show ?thesis by simp
    next
      case False
      with x(1) assms(2) have "last x = last h" by (auto simp: suffix_def)
      with assms(3) False have "CHR ''m'' \<in> set x" using last_in_set[of x] by simp
      then have "CHR ''m'' \<in> set (x @ r)" by simp
      then have "CHR ''m'' \<in> set ''.json''" by (simp only: x(2)[symmetric])
      then show ?thesis by simp
    qed
  qed
qed

lemma replace_host_json: "suffix ''.json'' s \<Longrightarrow> suffix ''.json'' (replace_host s)"
proof (induction s)
  case Nil
  then show ?case by simp
next
  case (Cons c cs)
  show ?case
  proof (cases "match_alt_host (c # cs)")
    case (Some r)
    then obtain h where h: "c # cs = h @ r" "h \<noteq> []" "last h = CHR ''m''"
      unfolding match_alt_host_iff by fastforce
    from Cons.prems have "suffix ''.json'' r" unfolding h(1) using h(2,3) by (rule json_after_host)
    then show ?thesis by (simp add: Some suffix_appendI del: append.simps)
  next
    case None
    from Cons.prems consider "''.json'' = c # cs" | "suffix ''.json'' cs"
      by (auto simp: suffix_Cons)
    then show ?thesis
    proof cases
      case 1
      then have "cs = ''json''" "c = CHR ''.''" by simp_all
      then show ?thesis by (simp add: match_alt_host_def)
    next
      case 2
      then show ?thesis using Cons.IH by (simp add: None suffix_ConsI)
    qed
  qed
qed

text \<open>
  C6.  In the variants whose resolver has a fall-back path, the result of that path ends
  in \<^verbatim>\<open>.json\<close>, and when the input stripped of its query string and trailing slashes
  already ends in \<^verbatim>\<open>.json\<close>, nothing is appended: the result is the stripped input (with
  the host name rewritten in the variant that does so).  In the variant with the short link
  the fall-back path is taken when the pattern does not match.
\<close>

theorem fallback_json_suffix:
  "suffix ''.json'' (toRedditJsonUrl_plain u) \<and>
   (suffix ''.json'' (cleaned u) \<longrightarrow> toRedditJsonUrl_plain u = cleaned u) \<and>
   suffix ''.json'' (toRedditJsonUrl_rewrite u) \<and>
   (suffix ''.json'' (cleaned u) \<longrightarrow> toRedditJsonUrl_rewrite u = replace_host (cleaned u)) \<and>
   (search match_alnum_id u = None \<longrightarrow>
      suffix ''.json'' (toRedditJsonUrl_www u) \<and>
      (suffix ''.json'' (cleaned u) \<longrightarrow> toRedditJsonUrl_www u = cleaned u))"
  by (simp add: toRedditJsonUrl_plain_def toRedditJsonUrl_rewrite_def toRedditJsonUrl_www_def
        add_json_suffix add_json_same replace_host_json)

theorem fallback_json_suffix_witness:
  "cleaned ''https://old.reddit.com/r/pics.json/?sort=top'' = ''https://old.reddit.com/r/pics.json'' \<and>
   suffix ''.json'' (cleaned ''https://old.reddit.com/r/pics.json/?sort=top'') \<and>
   search match_alnum_id ''https://old.reddit.com/r/pics.json/?sort=top'' = None \<and>
   toRedditJsonUrl_plain ''https://old.reddit.com/r/pics.json/?sort=top'' =
     cleaned ''https://old.reddit.com/r/pics.json/?sort=top'' \<and>
   toRedditJsonUrl_rewrite ''https://old.reddit.com/r/pics.json/?sort=top'' =
     replace_host (cleaned ''https://old.reddit.com/r/pics.json/?sort=top'') \<and>
   toRedditJsonUrl_www ''https://old.reddit.com/r/pics.json/?sort=top'' =
     cleaned ''https://old.reddit.com/r/pics.json/?sort=top'' \<and>
   suffix ''.json'' (toRedditJsonUrl_plain ''https://old.reddit.com/r/pics.json/?sort=top'') \<and>
   suffix ''.json'' (toRedditJsonUrl_rewrite ''https://old.reddit.com/r/pics.json/?sort=top'') \<and>
   suffix ''.json'' (toRedditJsonUrl_www ''https://old.reddit.com/r/pics.json/?sort=top'')"
proof -
  let ?u = "''https://old.reddit.com/r/pics.json/?sort=top''"
  have c: "cleaned ?u = ''https://old.reddit.com/r/pics.json''"
    by (simp add: cleaned_def)
  have s: "suffix ''.json'' (cleaned ?u)"
    unfolding c by (simp add: suffix_to_prefix)
  have n: "search match_alnum_id ?u = None"
    by (simp add: match_alnum_id_def canonicalize_def)
  show ?thesis
    using c s n fallback_json_suffix[of ?u] by blast
qed


subsection \<open>When the credentialed resolver fails\<close>

lemma takeWhile_Nil_iff: "takeWhile P s = [] \<longleftrightarrow> s = [] \<or> \<not> P (hd s)"
  by (cases s) auto

lemma literal_then_class:
  assumes n: "length p = n"
  shows "(\<exists>t. suffix t u \<and> (\<exists>r. strip_prefix_ci p t = Some r \<and> r \<noteq> [] \<and> Q (hd r))) \<longleftrightarrow>
         (\<exists>i < length u. i + n < length u \<and>
            map canonicalize (take n (drop i u)) = map canonicalize p \<and> Q (u ! (i + n)))"
    (is "?L \<longleftrightarrow> ?R")
proof
  assume ?L
  then obtain t r where t: "suffix t u" and r: "strip_prefix_ci p t = Some r" "r \<noteq> []" "Q (hd r)"
    by blast
  from t obtain i where i: "i \<le> length u" "t = drop i u" by (auto simp: suffix_iff_drop)
  from r(1) have m: "map canonicalize (take n t) = map canonicalize p" and d: "r = drop n t"
    by (simp_all add: strip_prefix_ci_iff n)
  from d i(2) have r': "r = drop (i + n) u" by (simp add: add.commute)
  with r(2) have lt: "i + n < length u" by simp
  then have "hd r = u ! (i + n)" unfolding r' by (simp add: hd_drop_conv_nth)
  with r(3) have q: "Q (u ! (i + n))" by simp
  from lt have "i < length u" by simp
  with q m lt i(2) show ?R by (intro exI[of _ i]) simp
next
  assume ?R
  then obtain i where i: "i + n < length u"
    "map canonicalize (take n (drop i u)) = map canonicalize p" "Q (u ! (i + n))"
    by blast
  let ?t = "drop i u"
  let ?r = "drop n ?t"
  from i(1) have "strip_prefix_ci p ?t = Some ?r"
    by (simp add: strip_prefix_ci_iff n i(2))
  moreover from i(1) have "?r \<noteq> []" by simp
  moreover from i(1,3) have "Q (hd ?r)" by (simp add: hd_drop_conv_nth add.commute)
  ultimately show ?L using suffix_drop[of i u] by blast
qed

lemma match_id_iff:
  "match_id t \<noteq> None \<longleftrightarrow>
     (\<exists>r. strip_prefix_ci ''/comments/'' t = Some r \<and> r \<noteq> [] \<and> hd r \<noteq> CHR ''/'')"
  unfolding match_id_def
  by (cases "strip_prefix_ci ''/comments/'' t") (simp_all add: takeWhile_Nil_iff not_slash_def)

lemma match_sub_id_loose:
  assumes "match_sub_id t = Some x"
  shows "\<exists>t'. suffix t' t \<and> match_id t' \<noteq> None"
proof -
  from assms obtain s1 s2 where s1: "strip_prefix_ci ''/r/'' t = Some s1"
    and s2: "strip_prefix_ci ''/comments/'' (dropWhile not_slash s1) = Some s2"
    and ne: "takeWhile not_slash s2 \<noteq> []"
    by (auto simp: match_sub_id_def split: option.splits if_splits)
  have "suffix (dropWhile not_slash s1) t"
    using suffix_dropWhile[of not_slash s1] strip_prefix_ci_suffix[OF s1] by (rule suffix_order.trans)
  moreover have "match_id (dropWhile not_slash s1) \<noteq> None"
    using s2 ne by (simp add: match_id_def)
  ultimately show ?thesis by blast
qed

lemma search_sub_id_loose: "search match_sub_id u \<noteq> None \<Longrightarrow> search match_id u \<noteq> None"
proof -
  assume "search match_sub_id u \<noteq> None"
  then obtain x t where "suffix t u" "match_sub_id t = Some x"
    using search_Some_suffix[of match_sub_id u] by auto
  with match_sub_id_loose[of t x] obtain t' where "suffix t' u" "match_id t' \<noteq> None"
    using suffix_order.trans by blast
  then show ?thesis by (auto simp: search_None_iff)
qed

lemma search_match_id_iff: "search match_id u \<noteq> None \<longleftrightarrow> has_thread_id u"
proof -
  have "search match_id u \<noteq> None \<longleftrightarrow> (\<exists>t. suffix t u \<and> match_id t \<noteq> None)"
    by (simp add: search_None_iff)
  also have "\<dots> \<longleftrightarrow> (\<exists>t. suffix t u \<and>
       (\<exists>r. strip_prefix_ci ''/comments/'' t = Some r \<and> r \<noteq> [] \<and> hd r \<noteq> CHR ''/''))"
    by (simp only: match_id_iff)
  also have "\<dots> \<longleftrightarrow> (\<exists>i < length u. i + 10 < length u \<and>
       map canonicalize (take 10 (drop i u)) = map canonicalize ''/comments/'' \<and>
       u ! (i + 10) \<noteq> CHR ''/'')"
    by (rule literal_then_class) simp
  also have "\<dots> \<longleftrightarrow> has_thread_id u"
    by (simp only: has_thread_id_def canonicalize_comments)
  finally show ?thesis .
qed

lemma toRedditJsonUrl_None_iff: "toRedditJsonUrl u = None \<longleftrightarrow> \<not> has_thread_id u"
proof -
  have "toRedditJsonUrl u = None \<longleftrightarrow> search match_sub_id u = None \<and> search match_id u = None"
    by (auto simp: toRedditJsonUrl_def split: option.splits)
  also have "\<dots> \<longleftrightarrow> search match_id u = None"
    using search_sub_id_loose[of u] by blast
  also have "\<dots> \<longleftrightarrow> \<not> has_thread_id u"
    using search_match_id_iff[of u] by blast
  finally show ?thesis .
qed


subsection \<open>Resolving a resolved address again\<close>

lemma canonicalize_literals:
  "canonicalize CHR ''/'' = CHR ''/''" "canonicalize CHR ''r'' = CHR ''R''"
  "canonicalize CHR ''c'' = CHR ''C''" "canonicalize CHR ''o'' = CHR ''O''"
  "canonicalize CHR ''w'' = CHR ''W''" "canonicalize CHR ''.'' = CHR ''.''"
  by (simp_all add: canonicalize_def)

lemma slash_is_canonicalize [simp]: "CHR ''/'' = canonicalize c \<longleftrightarrow> c = CHR ''/''"
  using canonicalize_slash[of c] by (simp only: eq_commute[of "CHR ''/''"])

lemma strip_prefix_ci_no_slash:
  "c \<noteq> CHR ''/'' \<Longrightarrow> strip_prefix_ci (CHR ''/'' # ps) (c # cs) = None"
  by (simp add: canonicalize_literals)

lemma match_no_slash:
  assumes "c \<noteq> CHR ''/''"
  shows "match_sub_id (c # cs) = None" "match_id (c # cs) = None" "match_alnum_id (c # cs) = None"
  using assms
  by (simp_all add: match_sub_id_def match_id_def match_alnum_id_def canonicalize_literals)

lemma match_two_slashes:
  "match_sub_id (CHR ''/'' # CHR ''/'' # s) = None" "match_id (CHR ''/'' # CHR ''/'' # s) = None"
  "match_alnum_id (CHR ''/'' # CHR ''/'' # s) = None"
  by (simp_all add: match_sub_id_def match_id_def match_alnum_id_def canonicalize_literals)

lemma match_slash_host:
  "match_sub_id (CHR ''/'' # CHR ''o'' # s) = None" "match_id (CHR ''/'' # CHR ''o'' # s) = None"
  "match_alnum_id (CHR ''/'' # CHR ''w'' # s) = None"
  "match_sub_id (CHR ''/'' # CHR ''c'' # s) = None"
  by (simp_all add: match_sub_id_def match_id_def match_alnum_id_def canonicalize_literals)

lemma match_Nil:
  "match_sub_id [] = None" "match_id [] = None" "match_alnum_id [] = None"
  by (simp_all add: match_sub_id_def match_id_def match_alnum_id_def)

lemma skip_oauth_host:
  "search match_sub_id (''https://oauth.reddit.com'' @ y) = search match_sub_id y"
  "search match_id (''https://oauth.reddit.com'' @ y) = search match_id y"
  by (simp_all add: match_no_slash match_two_slashes match_slash_host)

lemma skip_www_host:
  "search match_alnum_id (''https://www.reddit.com'' @ y) = search match_alnum_id y"
  by (simp add: match_no_slash match_two_slashes match_slash_host)

lemma strip_prefix_ci_self: "strip_prefix_ci p (p @ x) = Some x"
  by (induction p) simp_all

lemma takeWhile_run:
  assumes "\<forall>c \<in> set s. P c" and "\<not> P x"
  shows "takeWhile P (s @ x # r) = s" "dropWhile P (s @ x # r) = x # r"
  using assms by (induction s) simp_all

lemma takeWhile_whole: "\<forall>c \<in> set s. P c \<Longrightarrow> takeWhile P s = s"
  by (simp add: takeWhile_eq_all_conv)

lemma no_slash_search:
  assumes "\<forall>c \<in> set s. c \<noteq> CHR ''/''"
  shows "search match_sub_id s = None"
  using assms by (induction s) (simp_all add: match_Nil match_no_slash)

lemma search_sub_id_props:
  assumes "search match_sub_id u = Some (sub, ident)"
  shows "sub \<noteq> []" "\<forall>c \<in> set sub. c \<noteq> CHR ''/''"
        "ident \<noteq> []" "\<forall>c \<in> set ident. c \<noteq> CHR ''/''"
proof -
  from search_Some_suffix[OF assms] obtain t where "match_sub_id t = Some (sub, ident)" by blast
  then obtain s1 s2 where "sub = takeWhile not_slash s1" "ident = takeWhile not_slash s2"
    "sub \<noteq> []" "ident \<noteq> []"
    by (auto simp: match_sub_id_def split: option.splits if_splits)
  then show "sub \<noteq> []" "\<forall>c \<in> set sub. c \<noteq> CHR ''/''"
    "ident \<noteq> []" "\<forall>c \<in> set ident. c \<noteq> CHR ''/''"
    by (auto dest: set_takeWhileD simp: not_slash_def)
qed

lemma search_id_props:
  assumes "search match_id u = Some ident"
  shows "ident \<noteq> []" "\<forall>c \<in> set ident. c \<noteq> CHR ''/''"
proof -
  from search_Some_suffix[OF assms] obtain t where "match_id t = Some ident" by blast
  then obtain s1 where "ident = takeWhile not_slash s1" "ident \<noteq> []"
    by (auto simp: match_id_def split: option.splits if_splits)
  then show "ident \<noteq> []" "\<forall>c \<in> set ident. c \<noteq> CHR ''/''"
    by (auto dest: set_takeWhileD simp: not_slash_def)
qed

lemma search_alnum_id_props:
  assumes "search match_alnum_id u = Some ident"
  shows "ident \<noteq> []" "\<forall>c \<in> set ident. alnum c"
proof -
  from search_Some_suffix[OF assms] obtain t where "match_alnum_id t = Some ident" by blast
  then obtain s1 where "ident = takeWhile alnum s1" "ident \<noteq> []"
    by (auto simp: match_alnum_id_def split: option.splits if_splits)
  then show "ident \<noteq> []" "\<forall>c \<in> set ident. alnum c"
    by (auto dest: set_takeWhileD)
qed

lemma match_sub_id_built:
  assumes "sub \<noteq> []" "\<forall>c \<in> set sub. c \<noteq> CHR ''/''"
          "ident \<noteq> []" "\<forall>c \<in> set ident. c \<noteq> CHR ''/''"
  shows "match_sub_id (''/r/'' @ sub @ ''/comments/'' @ ident) = Some (sub, ident)"
proof -
  let ?tail = "''comments/'' @ ident"
  have s: "\<forall>c \<in> set sub. not_slash c" "\<forall>c \<in> set ident. not_slash c" "\<not> not_slash CHR ''/''"
    using assms by (simp_all add: not_slash_def)
  have 1: "strip_prefix_ci ''/r/'' (''/r/'' @ sub @ ''/comments/'' @ ident) =
           Some (sub @ ''/comments/'' @ ident)"
    by (rule strip_prefix_ci_self)
  have split: "sub @ ''/comments/'' @ ident = sub @ CHR ''/'' # ?tail" by simp
  have 2: "takeWhile not_slash (sub @ ''/comments/'' @ ident) = sub"
    unfolding split using s(1,3) by (rule takeWhile_run)
  have 3: "dropWhile not_slash (sub @ ''/comments/'' @ ident) = ''/comments/'' @ ident"
    unfolding split using takeWhile_run(2)[OF s(1,3), of ?tail] by simp
  have 4: "strip_prefix_ci ''/comments/'' (''/comments/'' @ ident) = Some ident"
    by (rule strip_prefix_ci_self)
  have 5: "takeWhile not_slash ident = ident"
    using s(2) by (rule takeWhile_whole)
  show ?thesis
    unfolding match_sub_id_def 1 option.case 2 3 4 5 using assms(1,3) by simp
qed

lemma match_id_built:
  assumes "ident \<noteq> []" "\<forall>c \<in> set ident. c \<noteq> CHR ''/''"
  shows "match_id (''/comments/'' @ ident) = Some ident"
proof -
  have 4: "strip_prefix_ci ''/comments/'' (''/comments/'' @ ident) = Some ident"
    by (rule strip_prefix_ci_self)
  have 5: "takeWhile not_slash ident = ident"
    using assms(2) by (simp add: takeWhile_whole not_slash_def)
  show ?thesis unfolding match_id_def 4 option.case 5 using assms(1) by simp
qed

lemma match_alnum_id_built:
  assumes "ident \<noteq> []" "\<forall>c \<in> set ident. alnum c"
  shows "match_alnum_id (''/comments/'' @ ident @ ''.json'') = Some ident"
proof -
  have dot: "\<not> alnum CHR ''.''" by (simp add: alnum_def canonicalize_literals)
  have 4: "strip_prefix_ci ''/comments/'' (''/comments/'' @ ident @ ''.json'') =
           Some (ident @ ''.json'')"
    by (rule strip_prefix_ci_self)
  have 5: "takeWhile alnum (ident @ ''.json'') = ident"
    using takeWhile_run(1)[OF assms(2) dot, of "''json''"] by simp
  show ?thesis unfolding match_alnum_id_def 4 option.case 5 using assms(1) by simp
qed

lemma slash_then_no_slash:
  assumes "\<forall>c \<in> set ident. c \<noteq> CHR ''/''"
  shows "match_sub_id (CHR ''/'' # ident) = None"
proof (cases ident)
  case Nil
  then show ?thesis by (simp add: match_sub_id_def)
next
  case (Cons c cs)
  with assms have cs: "\<forall>d \<in> set cs. d \<noteq> CHR ''/''" by simp
  have "strip_prefix_ci ''/'' cs = None"
    using cs by (cases cs) (simp_all add: canonicalize_literals)
  then show ?thesis
    by (simp add: Cons match_sub_id_def canonicalize_literals)
qed

lemma toRedditJsonUrl_again:
  assumes "toRedditJsonUrl u = Some v"
  shows "toRedditJsonUrl v = Some v"
proof (cases "search match_sub_id u")
  case (Some x)
  obtain sub ident where x: "x = (sub, ident)" by (cases x)
  from assms Some x have v: "v = ''https://oauth.reddit.com/r/'' @ sub @ ''/comments/'' @ ident"
    by (simp add: toRedditJsonUrl_def)
  note p = search_sub_id_props[OF Some[unfolded x]]
  have "v = ''https://oauth.reddit.com'' @ (''/r/'' @ sub @ ''/comments/'' @ ident)"
    by (simp add: v)
  then have "search match_sub_id v = search match_sub_id (''/r/'' @ sub @ ''/comments/'' @ ident)"
    by (simp only: skip_oauth_host)
  also have "\<dots> = Some (sub, ident)"
    using match_sub_id_built[OF p] by simp
  finally have "search match_sub_id v = Some (sub, ident)" .
  then show ?thesis unfolding toRedditJsonUrl_def by (simp add: v)
next
  case None
  with assms obtain ident where i: "search match_id u = Some ident"
    and v: "v = ''https://oauth.reddit.com/comments/'' @ ident"
    by (auto simp: toRedditJsonUrl_def split: option.splits)
  note p = search_id_props[OF i]
  have v': "v = ''https://oauth.reddit.com'' @ (''/comments/'' @ ident)"
    by (simp add: v)
  have "search match_sub_id v = search match_sub_id (''/comments/'' @ ident)"
    by (simp only: v' skip_oauth_host)
  also have "\<dots> = search match_sub_id (CHR ''/'' # ident)"
    by (simp add: match_no_slash match_slash_host)
  also have "\<dots> = None"
    using slash_then_no_slash[OF p(2)] no_slash_search[OF p(2)] by simp
  finally have 1: "search match_sub_id v = None" .
  have "search match_id v = search match_id (''/comments/'' @ ident)"
    by (simp only: v' skip_oauth_host)
  also have "\<dots> = Some ident"
    using match_id_built[OF p] by simp
  finally have 2: "search match_id v = Some ident" .
  show ?thesis unfolding toRedditJsonUrl_def 1 2 by (simp add: v)
qed


lemma cleaned_prefix: "\<exists>rest. u = cleaned u @ rest"
proof -
  let ?q = "takeWhile (\<lambda>c. c \<noteq> CHR ''?'') u"
  have "?q = cleaned u @ rev (takeWhile (\<lambda>c. c = CHR ''/'') (rev ?q))"
    unfolding cleaned_def
    by (metis rev_append rev_rev_ident takeWhile_dropWhile_id)
  moreover have "u = ?q @ dropWhile (\<lambda>c. c \<noteq> CHR ''?'') u" by simp
  ultimately show ?thesis by (metis append.assoc)
qed

lemma cleaned_no_query: "CHR ''?'' \<notin> set (cleaned u)"
proof
  assume "CHR ''?'' \<in> set (cleaned u)"
  then have "CHR ''?'' \<in> set (takeWhile (\<lambda>c. c \<noteq> CHR ''?'') u)"
    unfolding cleaned_def using set_dropWhileD by fastforce
  then show False by (auto dest: set_takeWhileD)
qed

lemma cleaned_same:
  assumes "CHR ''?'' \<notin> set s" and "s = [] \<or> last s \<noteq> CHR ''/''"
  shows "cleaned s = s"
proof -
  have 1: "takeWhile (\<lambda>c. c \<noteq> CHR ''?'') s = s"
    using assms(1) by (auto simp: takeWhile_eq_all_conv)
  have 2: "dropWhile (\<lambda>c. c = CHR ''/'') (rev s) = rev s"
    using assms(2) by (cases "rev s") (auto simp: last_rev[symmetric] simp del: last_rev)
  show ?thesis unfolding cleaned_def 1 2 by simp
qed

lemma json_last: "suffix ''.json'' s \<Longrightarrow> s \<noteq> [] \<and> last s = CHR ''n''"
  by (auto simp: suffix_def)

lemma add_json_no_query: "CHR ''?'' \<notin> set s \<Longrightarrow> CHR ''?'' \<notin> set (add_json s)"
  by (simp add: add_json_def)

lemma fallback_again:
  assumes "r = add_json (cleaned u)"
  shows "cleaned r = r" "add_json r = r"
proof -
  have j: "suffix ''.json'' r" unfolding assms by (rule add_json_suffix)
  have "CHR ''?'' \<notin> set r" unfolding assms by (intro add_json_no_query cleaned_no_query)
  then show "cleaned r = r" using json_last[OF j] by (intro cleaned_same) simp_all
  show "add_json r = r" using j by (rule add_json_same)
qed

lemma toRedditJsonUrl_plain_again:
  "toRedditJsonUrl_plain (toRedditJsonUrl_plain u) = toRedditJsonUrl_plain u"
  unfolding toRedditJsonUrl_plain_def using fallback_again[OF refl, of u] by simp

text \<open>The pattern of the short link occurs at some position.\<close>

lemma match_alnum_id_iff:
  "match_alnum_id t \<noteq> None \<longleftrightarrow>
     (\<exists>r. strip_prefix_ci ''/comments/'' t = Some r \<and> r \<noteq> [] \<and> alnum (hd r))"
  unfolding match_alnum_id_def
  by (cases "strip_prefix_ci ''/comments/'' t") (simp_all add: takeWhile_Nil_iff)

lemma ex_bound: "(\<exists>i < m. i + k < m \<and> P i) \<longleftrightarrow> (\<exists>i. i + k < (m::nat) \<and> P i)"
proof
  assume "\<exists>i. i + k < m \<and> P i"
  then obtain i where "i + k < m" "P i" by blast
  moreover from this have "i < m" by simp
  ultimately show "\<exists>i < m. i + k < m \<and> P i" by blast
qed blast

lemma search_alnum_iff: "search match_alnum_id u \<noteq> None \<longleftrightarrow> (\<exists>i. short_link_at u i)"
proof -
  have "search match_alnum_id u \<noteq> None \<longleftrightarrow> (\<exists>t. suffix t u \<and> match_alnum_id t \<noteq> None)"
    by (simp add: search_None_iff)
  also have "\<dots> \<longleftrightarrow> (\<exists>t. suffix t u \<and>
       (\<exists>r. strip_prefix_ci ''/comments/'' t = Some r \<and> r \<noteq> [] \<and> alnum (hd r)))"
    by (simp only: match_alnum_id_iff)
  also have "\<dots> \<longleftrightarrow> (\<exists>i < length u. i + 10 < length u \<and>
       map canonicalize (take 10 (drop i u)) = map canonicalize ''/comments/'' \<and>
       alnum (u ! (i + 10)))"
    by (rule literal_then_class) simp
  also have "\<dots> \<longleftrightarrow> (\<exists>i. i + 10 < length u \<and>
       map canonicalize (take 10 (drop i u)) = map canonicalize ''/comments/'' \<and>
       alnum (u ! (i + 10)))"
    by (rule ex_bound)
  also have "\<dots> \<longleftrightarrow> (\<exists>i. short_link_at u i)"
    by (simp only: short_link_at_def)
  finally show ?thesis .
qed

lemma window_inside:
  assumes "length p = n" and "canonicalize d \<notin> set (map canonicalize p)" and "\<not> Q d"
    and "i + n < length (c @ d # x)"
    and "map canonicalize (take n (drop i (c @ d # x))) = map canonicalize p"
    and "Q ((c @ d # x) ! (i + n))"
    and "length x \<le> n"
  shows "i + n < length c"
proof (rule ccontr)
  assume "\<not> i + n < length c"
  then have ge: "length c \<le> i + n" by simp
  have at: "(c @ d # x) ! length c = d" by simp
  show False
  proof (cases "length c = i + n")
    case True
    with assms(6) at have "Q d" by simp
    with assms(3) show False by simp
  next
    case False
    with ge have lt: "length c < i + n" by simp
    show False
    proof (cases "i \<le> length c")
      case True
      define k where "k = length c - i"
      from True lt have k: "k < n" "i + k = length c" by (simp_all add: k_def)
      define s where "s = c @ d # x"
      have ls: "i + n < length s" using assms(4) by (simp only: s_def)
      then have len: "k < length (take n (drop i s))" using k(1) by simp
      have "map canonicalize (take n (drop i s)) ! k = canonicalize (take n (drop i s) ! k)"
        using len by (rule nth_map)
      also have "\<dots> = canonicalize (drop i s ! k)" using k(1) by (simp only: nth_take)
      also have "\<dots> = canonicalize (s ! (i + k))" using ls by (simp only: nth_drop)
      finally have "map canonicalize (take n (drop i (c @ d # x))) ! k =
            canonicalize ((c @ d # x) ! (i + k))" by (simp only: s_def)
      also have "\<dots> = canonicalize d" unfolding k(2) at ..
      finally have "canonicalize d = map canonicalize p ! k" unfolding assms(5) by simp
      moreover have "k < length (map canonicalize p)" using k(1) assms(1) by simp
      ultimately have "canonicalize d \<in> set (map canonicalize p)"
        by (metis nth_mem)
      with assms(2) show False by simp
    next
      case False
      with assms(4,7) show False by simp
    qed
  qed
qed


lemma window_append:
  assumes "i + 10 < length c"
  shows "short_link_at (c @ y) i \<longleftrightarrow> short_link_at c i"
  using assms by (simp add: short_link_at_def nth_append)

lemma window_add_json:
  assumes "short_link_at (add_json c) i"
  shows "short_link_at c i"
proof (cases "suffix ''.json'' c")
  case True
  with assms show ?thesis by (simp add: add_json_def)
next
  case False
  with assms have w: "short_link_at (c @ CHR ''.'' # ''json'') i" by (simp add: add_json_def)
  have "i + 10 < length c"
  proof (rule window_inside[where p = "''/comments/''" and d = "CHR ''.''" and Q = alnum
          and x = "''json''"])
    show "length ''/comments/'' = 10" by simp
    show "canonicalize CHR ''.'' \<notin> set (map canonicalize ''/comments/'')"
      by (simp add: canonicalize_def)
    show "\<not> alnum CHR ''.''" by (simp add: alnum_def canonicalize_literals)
    show "i + 10 < length (c @ CHR ''.'' # ''json'')" using w by (simp add: short_link_at_def)
    show "map canonicalize (take 10 (drop i (c @ CHR ''.'' # ''json''))) =
          map canonicalize ''/comments/''"
      using w unfolding short_link_at_def by blast
    show "alnum ((c @ CHR ''.'' # ''json'') ! (i + 10))" using w unfolding short_link_at_def by blast
    show "length ''json'' \<le> 10" by simp
  qed
  with w show ?thesis by (simp only: window_append)
qed

lemma fallback_no_match:
  assumes "search match_alnum_id u = None"
  shows "search match_alnum_id (add_json (cleaned u)) = None"
proof (rule ccontr)
  assume "search match_alnum_id (add_json (cleaned u)) \<noteq> None"
  then obtain i where "short_link_at (add_json (cleaned u)) i"
    using search_alnum_iff[of "add_json (cleaned u)"] by blast
  then have w: "short_link_at (cleaned u) i" by (rule window_add_json)
  then have lt: "i + 10 < length (cleaned u)" by (simp add: short_link_at_def)
  obtain rest where u: "u = cleaned u @ rest" using cleaned_prefix by blast
  have "short_link_at (cleaned u @ rest) i" using w by (simp only: window_append[OF lt])
  then have "short_link_at u i" using u by simp
  then have "search match_alnum_id u \<noteq> None" unfolding search_alnum_iff by blast
  with assms show False by simp
qed

lemma toRedditJsonUrl_www_again:
  "toRedditJsonUrl_www (toRedditJsonUrl_www u) = toRedditJsonUrl_www u"
proof (cases "search match_alnum_id u")
  case None
  then have v: "toRedditJsonUrl_www u = add_json (cleaned u)"
    by (simp add: toRedditJsonUrl_www_def)
  have "search match_alnum_id (add_json (cleaned u)) = None"
    using None by (rule fallback_no_match)
  then show ?thesis
    unfolding v using fallback_again[OF refl, of u] by (simp add: toRedditJsonUrl_www_def)
next
  case (Some ident)
  then have v: "toRedditJsonUrl_www u = ''https://www.reddit.com/comments/'' @ ident @ ''.json''"
    by (simp add: toRedditJsonUrl_www_def)
  note p = search_alnum_id_props[OF Some]
  have "toRedditJsonUrl_www u = ''https://www.reddit.com'' @ (''/comments/'' @ ident @ ''.json'')"
    by (simp add: v)
  then have "search match_alnum_id (toRedditJsonUrl_www u) =
             search match_alnum_id (''/comments/'' @ ident @ ''.json'')"
    by (simp only: skip_www_host)
  also have "\<dots> = Some ident"
    using match_alnum_id_built[OF p] by simp
  finally have "search match_alnum_id (toRedditJsonUrl_www u) = Some ident" .
  then show ?thesis
    unfolding toRedditJsonUrl_www_def[of "toRedditJsonUrl_www u"] by (simp add: v)
qed


lemma replace_host_chars: "set (replace_host s) \<subseteq> set s \<union> set ''www.reddit.com''"
proof (induction s)
  case Nil
  show ?case by simp
next
  case (Cons c cs)
  show ?case
  proof (cases "match_alt_host (c # cs)")
    case None
    with Cons.IH show ?thesis by auto
  next
    case (Some r)
    then obtain h where "c # cs = h @ r" unfolding match_alt_host_iff by blast
    then have "set r \<subseteq> set (c # cs)" by (metis set_append sup_ge2)
    moreover have "replace_host (c # cs) = ''www.reddit.com'' @ r"
      by (simp add: Some del: append.simps)
    ultimately show ?thesis by (simp only: set_append) blast
  qed
qed

lemma match_alt_host_head: "match_alt_host (c # cs) = Some r \<Longrightarrow> c \<noteq> CHR ''w''"
  unfolding match_alt_host_iff by auto

lemma replace_host_same_iff: "replace_host s = s \<longleftrightarrow> search match_alt_host s = None"
proof (induction s)
  case Nil
  show ?case by (simp add: match_alt_host_def)
next
  case (Cons c cs)
  show ?case
  proof (cases "match_alt_host (c # cs)")
    case None
    with Cons.IH show ?thesis by simp
  next
    case (Some r)
    from match_alt_host_head[OF Some] show ?thesis by (simp add: Some)
  qed
qed

lemma prefix_take_iff: "(\<exists>r. t = h @ r) \<longleftrightarrow> take (length h) t = h"
  by (metis append_eq_conv_conj append_take_drop_id)

lemma match_alt_host_take:
  "match_alt_host t \<noteq> None \<longleftrightarrow>
     (\<exists>h \<in> {''old.reddit.com'', ''mobile.reddit.com'', ''pay.reddit.com''}. take (length h) t = h)"
proof -
  have "match_alt_host t \<noteq> None \<longleftrightarrow>
        (\<exists>r. t = ''old.reddit.com'' @ r) \<or> (\<exists>r. t = ''mobile.reddit.com'' @ r) \<or>
        (\<exists>r. t = ''pay.reddit.com'' @ r)"
    using match_alt_host_iff[of t] by (cases "match_alt_host t") (simp, blast)
  then show ?thesis by (simp only: prefix_take_iff bex_simps insert_iff empty_iff) blast
qed

lemma search_alt_host_iff: "search match_alt_host u \<noteq> None \<longleftrightarrow> has_alt_host u"
proof
  assume "search match_alt_host u \<noteq> None"
  then have "\<not> (\<forall>t. suffix t u \<longrightarrow> match_alt_host t = None)"
    unfolding search_None_iff .
  then obtain t where t: "suffix t u" "match_alt_host t \<noteq> None" by blast
  then obtain i where i: "i \<le> length u" "t = drop i u" by (auto simp: suffix_iff_drop)
  from t(2) have "t \<noteq> []" by (auto simp: match_alt_host_def)
  with i have "i < length u" by simp
  moreover from t(2) obtain h where
    "h \<in> {''old.reddit.com'', ''mobile.reddit.com'', ''pay.reddit.com''}" "take (length h) t = h"
    unfolding match_alt_host_take by blast
  ultimately show "has_alt_host u" unfolding has_alt_host_def i(2) by blast
next
  assume "has_alt_host u"
  then obtain i h where "h \<in> {''old.reddit.com'', ''mobile.reddit.com'', ''pay.reddit.com''}"
    "take (length h) (drop i u) = h"
    unfolding has_alt_host_def by blast
  then have "match_alt_host (drop i u) \<noteq> None" unfolding match_alt_host_take by blast
  then have m: "match_alt_host (drop i u) \<noteq> None" .
  have s: "suffix (drop i u) u" by (rule suffix_drop)
  show "search match_alt_host u \<noteq> None"
  proof
    assume "search match_alt_host u = None"
    then have "\<forall>t. suffix t u \<longrightarrow> match_alt_host t = None" unfolding search_None_iff .
    then have "suffix (drop i u) u \<longrightarrow> match_alt_host (drop i u) = None" by (rule spec)
    with s m show False by simp
  qed
qed

lemma toRedditJsonUrl_rewrite_again:
  "toRedditJsonUrl_rewrite (toRedditJsonUrl_rewrite u) = replace_host (toRedditJsonUrl_rewrite u)"
proof -
  let ?r = "toRedditJsonUrl_rewrite u"
  have j: "suffix ''.json'' ?r"
    unfolding toRedditJsonUrl_rewrite_def by (intro replace_host_json add_json_suffix)
  have "CHR ''?'' \<notin> set (add_json (cleaned u))"
    by (intro add_json_no_query cleaned_no_query)
  then have "CHR ''?'' \<notin> set ?r"
    unfolding toRedditJsonUrl_rewrite_def using replace_host_chars[of "add_json (cleaned u)"] by auto
  then have "cleaned ?r = ?r" using json_last[OF j] by (intro cleaned_same) simp_all
  moreover have "add_json ?r = ?r" using j by (rule add_json_same)
  ultimately show ?thesis by (simp add: toRedditJsonUrl_rewrite_def[of ?r])
qed


text \<open>
  C10, as amended.  Resolving a resolved address gives the same address: in index.js for
  every result that is not \<^verbatim>\<open>null\<close>, and in the variants of part_000 for every input.  In
  the variant of part_001 this holds exactly when the first result contains no further
  host name \<^verbatim>\<open>old.reddit.com\<close>, \<^verbatim>\<open>mobile.reddit.com\<close> or \<^verbatim>\<open>pay.reddit.com\<close>; otherwise the
  second application rewrites the next one.
\<close>

theorem resolver_idempotent:
  "(toRedditJsonUrl u = Some v \<longrightarrow> toRedditJsonUrl v = Some v) \<and>
   toRedditJsonUrl_www (toRedditJsonUrl_www u) = toRedditJsonUrl_www u \<and>
   toRedditJsonUrl_plain (toRedditJsonUrl_plain u) = toRedditJsonUrl_plain u \<and>
   (toRedditJsonUrl_rewrite (toRedditJsonUrl_rewrite u) = toRedditJsonUrl_rewrite u \<longleftrightarrow>
      \<not> has_alt_host (toRedditJsonUrl_rewrite u))"
proof (intro conjI impI)
  show "toRedditJsonUrl_rewrite (toRedditJsonUrl_rewrite u) = toRedditJsonUrl_rewrite u \<longleftrightarrow>
      \<not> has_alt_host (toRedditJsonUrl_rewrite u)"
    unfolding toRedditJsonUrl_rewrite_again replace_host_same_iff
    using search_alt_host_iff[of "toRedditJsonUrl_rewrite u"] by blast
qed (simp_all add: toRedditJsonUrl_again toRedditJsonUrl_www_again toRedditJsonUrl_plain_again)

theorem resolver_idempotent_witness:
  "toRedditJsonUrl ''https://redd.it/r/pics/Comments/1abc9z/a_title/?utm=x'' =
     Some ''https://oauth.reddit.com/r/pics/comments/1abc9z'' \<and>
   toRedditJsonUrl ''https://oauth.reddit.com/r/pics/comments/1abc9z'' =
     Some ''https://oauth.reddit.com/r/pics/comments/1abc9z'' \<and>
   toRedditJsonUrl_rewrite ''https://old.reddit.com/r/pics/'' = ''https://www.reddit.com/r/pics.json'' \<and>
   \<not> has_alt_host (toRedditJsonUrl_rewrite ''https://old.reddit.com/r/pics/'') \<and>
   toRedditJsonUrl_rewrite (toRedditJsonUrl_rewrite ''https://old.reddit.com/r/pics/'') =
     toRedditJsonUrl_rewrite ''https://old.reddit.com/r/pics/''"
proof -
  have a: "toRedditJsonUrl ''https://redd.it/r/pics/Comments/1abc9z/a_title/?utm=x'' =
     Some ''https://oauth.reddit.com/r/pics/comments/1abc9z''"
    by (simp add: toRedditJsonUrl_def match_sub_id_def canonicalize_def not_slash_def)
  have r: "toRedditJsonUrl_rewrite ''https://old.reddit.com/r/pics/'' =
      ''https://www.reddit.com/r/pics.json''"
    by (simp add: toRedditJsonUrl_rewrite_def cleaned_def add_json_def match_alt_host_def
          suffix_to_prefix)
  have "search match_alt_host ''https://www.reddit.com/r/pics.json'' = None"
    by (simp add: match_alt_host_def)
  then have n: "\<not> has_alt_host (toRedditJsonUrl_rewrite ''https://old.reddit.com/r/pics/'')"
    unfolding r using search_alt_host_iff[of "''https://www.reddit.com/r/pics.json''"] by blast
  show ?thesis
    using a r n
      resolver_idempotent[of "''https://redd.it/r/pics/Comments/1abc9z/a_title/?utm=x''"
        "''https://oauth.reddit.com/r/pics/comments/1abc9z''"]
      resolver_idempotent[of "''https://old.reddit.com/r/pics/''"]
    by blast
qed

text \<open>The variant of part_001 applied twice to an address of a domain listing.\<close>

theorem resolver_idempotent_counterexample:
  "toRedditJsonUrl_rewrite ''https://old.reddit.com/domain/old.reddit.com/'' =
     ''https://www.reddit.com/domain/old.reddit.com.json'' \<and>
   toRedditJsonUrl_rewrite (toRedditJsonUrl_rewrite ''https://old.reddit.com/domain/old.reddit.com/'') =
     ''https://www.reddit.com/domain/www.reddit.com.json'' \<and>
   toRedditJsonUrl_rewrite (toRedditJsonUrl_rewrite ''https://old.reddit.com/domain/old.reddit.com/'') \<noteq>
     toRedditJsonUrl_rewrite ''https://old.reddit.com/domain/old.reddit.com/''"
  by (simp add: toRedditJsonUrl_rewrite_def cleaned_def add_json_def match_alt_host_def
        suffix_to_prefix)

text \<open>
  C5, as amended.  The resolver of index.js returns \<^verbatim>\<open>null\<close> exactly when the input does
  not contain \<^verbatim>\<open>/comments/\<close> (in any letter case) followed by a character other than a
  slash, and every other result is an address on \<^verbatim>\<open>oauth.reddit.com\<close>.  The resolvers of the
  public variants have no failure: for every input they return an address that ends in
  \<^verbatim>\<open>.json\<close>.
\<close>

theorem resolver_failure:
  "(toRedditJsonUrl u = None \<longleftrightarrow> \<not> has_thread_id u) \<and>
   (toRedditJsonUrl u = Some v \<longrightarrow> prefix ''https://oauth.reddit.com/'' v) \<and>
   suffix ''.json'' (toRedditJsonUrl_www u) \<and>
   suffix ''.json'' (toRedditJsonUrl_plain u) \<and>
   suffix ''.json'' (toRedditJsonUrl_rewrite u)"
proof (intro conjI impI)
  show "toRedditJsonUrl u = None \<longleftrightarrow> \<not> has_thread_id u" by (rule toRedditJsonUrl_None_iff)
  show "prefix ''https://oauth.reddit.com/'' v" if "toRedditJsonUrl u = Some v"
    using that by (auto simp: toRedditJsonUrl_def split: option.splits)
  show "suffix ''.json'' (toRedditJsonUrl_www u)"
  proof (cases "search match_alnum_id u")
    case None
    then show ?thesis by (simp add: toRedditJsonUrl_www_def add_json_suffix)
  next
    case (Some ident)
    have "suffix ''.json'' ((''https://www.reddit.com/comments/'' @ ident) @ ''.json'')"
      by (rule suffixI) (rule refl)
    then show ?thesis by (simp add: toRedditJsonUrl_www_def Some)
  qed
  show "suffix ''.json'' (toRedditJsonUrl_plain u)"
    by (simp add: toRedditJsonUrl_plain_def add_json_suffix)
  show "suffix ''.json'' (toRedditJsonUrl_rewrite u)"
    unfolding toRedditJsonUrl_rewrite_def by (intro replace_host_json add_json_suffix)
qed

theorem resolver_failure_witness:
  "toRedditJsonUrl ''https://www.reddit.com/r/pics/'' = None \<and>
   \<not> has_thread_id ''https://www.reddit.com/r/pics/'' \<and>
   toRedditJsonUrl ''https://redd.it/comments/1abc9z'' = Some ''https://oauth.reddit.com/comments/1abc9z'' \<and>
   has_thread_id ''https://redd.it/comments/1abc9z'' \<and>
   prefix ''https://oauth.reddit.com/'' ''https://oauth.reddit.com/comments/1abc9z''"
proof -
  have a: "toRedditJsonUrl ''https://www.reddit.com/r/pics/'' = None"
    by (simp add: toRedditJsonUrl_def match_sub_id_def match_id_def canonicalize_def not_slash_def)
  have b: "toRedditJsonUrl ''https://redd.it/comments/1abc9z'' =
      Some ''https://oauth.reddit.com/comments/1abc9z''"
    by (simp add: toRedditJsonUrl_def match_sub_id_def match_id_def canonicalize_def not_slash_def)
  show ?thesis
    using a b resolver_failure[of "''https://www.reddit.com/r/pics/''"]
      resolver_failure[of "''https://redd.it/comments/1abc9z''"
        "''https://oauth.reddit.com/comments/1abc9z''"]
    by simp
qed

text \<open>An address of a subreddit gives no thread identifier; the resolver of index.js
  returns \<^verbatim>\<open>null\<close> for it, the resolvers of the public variants return an address.\<close>

theorem resolver_failure_counterexample:
  "\<not> has_thread_id ''https://www.reddit.com/r/pics/'' \<and>
   toRedditJsonUrl ''https://www.reddit.com/r/pics/'' = None \<and>
   toRedditJsonUrl_www ''https://www.reddit.com/r/pics/'' = ''https://www.reddit.com/r/pics.json'' \<and>
   toRedditJsonUrl_plain ''https://www.reddit.com/r/pics/'' = ''https://www.reddit.com/r/pics.json'' \<and>
   toRedditJsonUrl_rewrite ''https://www.reddit.com/r/pics/'' = ''https://www.reddit.com/r/pics.json''"
proof -
  have a: "toRedditJsonUrl ''https://www.reddit.com/r/pics/'' = None"
    by (simp add: toRedditJsonUrl_def match_sub_id_def match_id_def canonicalize_def not_slash_def)
  then have "\<not> has_thread_id ''https://www.reddit.com/r/pics/''"
    using toRedditJsonUrl_None_iff[of "''https://www.reddit.com/r/pics/''"] by blast
  moreover have "toRedditJsonUrl_www ''https://www.reddit.com/r/pics/'' =
      ''https://www.reddit.com/r/pics.json''"
    by (simp add: toRedditJsonUrl_www_def match_alnum_id_def canonicalize_def cleaned_def
          add_json_def suffix_to_prefix)
  moreover have "toRedditJsonUrl_plain ''https://www.reddit.com/r/pics/'' =
      ''https://www.reddit.com/r/pics.json''"
    by (simp add: toRedditJsonUrl_plain_def cleaned_def add_json_def suffix_to_prefix)
  moreover have "toRedditJsonUrl_rewrite ''https://www.reddit.com/r/pics/'' =
      ''https://www.reddit.com/r/pics.json''"
    by (simp add: toRedditJsonUrl_rewrite_def cleaned_def add_json_def match_alt_host_def
          suffix_to_prefix)
  ultimately show ?thesis using a by simp
qed


section \<open>Properties of the token cache and the request handler\<close>

lemma getRedditToken_sent:
  assumes "getRedditToken w st = (tok, st1, sent)"
  shows "sent = [] \<or> (\<exists>a b. sent = [TokenRequest a b])"
  using assms
  by (auto simp: getRedditToken_def split: option.splits sum.splits if_splits)

lemma getRedditToken_truthy:
  assumes "getRedditToken w st = (tok, st1, sent)" and "truthy tok"
  shows "cachedToken st1 = tok"
    and "\<exists>a b. client_id w = Some a \<and> client_secret w = Some b \<and> a \<noteq> [] \<and> b \<noteq> []"
  using assms
  by (auto simp: getRedditToken_def split: option.splits sum.splits if_splits)

lemma getRedditToken_state:
  assumes "getRedditToken w st = (tok, st1, sent)"
  shows "st1 = st \<or> (truthy (cachedToken st1) \<and>
           (\<exists>a b. client_id w = Some a \<and> client_secret w = Some b \<and> a \<noteq> [] \<and> b \<noteq> []))"
  using assms
  by (auto simp: getRedditToken_def split: option.splits sum.splits if_splits)

lemma reachable_configured:
  assumes "reachable cid secret st" and "truthy (cachedToken st)"
  shows "\<exists>a b. cid = Some a \<and> secret = Some b \<and> a \<noteq> [] \<and> b \<noteq> []"
  using assms
proof (induction rule: reachable.induct)
  case start
  then show ?case by (simp add: initial_state_def)
next
  case (call st w tok st1 sent)
  from getRedditToken_state[OF call.hyps(4)] call show ?case by auto
qed

lemma cache_hit:
  assumes "client_id w = Some a" "client_secret w = Some b" "a \<noteq> []" "b \<noteq> []"
    and "truthy (cachedToken st)" and "tokenExpiry st = Fin e" and "now_check w < e - 60000"
  shows "getRedditToken w st = (cachedToken st, st, [])"
  using assms by (simp add: getRedditToken_def)

lemma cache_miss:
  assumes "client_id w = Some a" "client_secret w = Some b" "a \<noteq> []" "b \<noteq> []"
    and "\<not> (truthy (cachedToken st) \<and>
             num_less (Fin (now_check w)) (num_sub (tokenExpiry st) (Fin 60000)))"
  shows "snd (snd (getRedditToken w st)) = [TokenRequest a b]"
  using assms by (auto simp: getRedditToken_def split: option.splits sum.splits if_splits)

text \<open>
  C3.  In a state of the cache that calls of \<open>getRedditToken\<close> can have left, when the
  cached token is truthy and the clock is before the stored expiry minus 60000
  milliseconds, the call returns the cached token, leaves the cache as it is and sends no
  request.  A second call in that window, after a call that returned a token, returns the
  same token and sends no request.  When a token is cached and the clock is not before the
  expiry minus the buffer, the call sends exactly one request, the credential exchange.
\<close>

theorem token_cache_reuse:
  "(reachable (client_id w) (client_secret w) st \<longrightarrow> truthy (cachedToken st) \<longrightarrow>
      tokenExpiry st = Fin e \<longrightarrow> now_check w < e - 60000 \<longrightarrow>
      getRedditToken w st = (cachedToken st, st, [])) \<and>
   (getRedditToken w st = (tok, st1, sent) \<longrightarrow> truthy tok \<longrightarrow>
      client_id w2 = client_id w \<longrightarrow> client_secret w2 = client_secret w \<longrightarrow>
      tokenExpiry st1 = Fin e1 \<longrightarrow> now_check w2 < e1 - 60000 \<longrightarrow>
      getRedditToken w2 st1 = (tok, st1, [])) \<and>
   (reachable (client_id w) (client_secret w) st \<longrightarrow> truthy (cachedToken st) \<longrightarrow>
      tokenExpiry st = Fin e \<longrightarrow> e - 60000 \<le> now_check w \<longrightarrow>
      (\<exists>a b. snd (snd (getRedditToken w st)) = [TokenRequest a b]))"
proof (intro conjI impI)
  assume r: "reachable (client_id w) (client_secret w) st" and t: "truthy (cachedToken st)"
    and e: "tokenExpiry st = Fin e" and n: "now_check w < e - 60000"
  from reachable_configured[OF r t] obtain a b where
    "client_id w = Some a" "client_secret w = Some b" "a \<noteq> []" "b \<noteq> []" by blast
  then show "getRedditToken w st = (cachedToken st, st, [])"
    using t e n by (rule cache_hit)
next
  assume g: "getRedditToken w st = (tok, st1, sent)" and t: "truthy tok"
    and c: "client_id w2 = client_id w" "client_secret w2 = client_secret w"
    and e: "tokenExpiry st1 = Fin e1" and n: "now_check w2 < e1 - 60000"
  from getRedditToken_truthy[OF g t] obtain a b where tok: "cachedToken st1 = tok"
    and ab: "client_id w = Some a" "client_secret w = Some b" "a \<noteq> []" "b \<noteq> []" by blast
  have "getRedditToken w2 st1 = (cachedToken st1, st1, [])"
    using ab t e n by (intro cache_hit[where a = a and b = b]) (simp_all add: c tok)
  then show "getRedditToken w2 st1 = (tok, st1, [])" by (simp add: tok)
next
  assume r: "reachable (client_id w) (client_secret w) st" and t: "truthy (cachedToken st)"
    and e: "tokenExpiry st = Fin e" and n: "e - 60000 \<le> now_check w"
  from reachable_configured[OF r t] obtain a b where
    ab: "client_id w = Some a" "client_secret w = Some b" "a \<noteq> []" "b \<noteq> []" by blast
  have "snd (snd (getRedditToken w st)) = [TokenRequest a b]"
    using ab by (rule cache_miss) (simp add: e n not_less)
  then show "\<exists>a b. snd (snd (getRedditToken w st)) = [TokenRequest a b]" by blast
qed

lemma first_call:
  "getRedditToken (world_with r t) initial_state =
     (JStr ''tok'', \<lparr>cachedToken = JStr ''tok'', tokenExpiry = Fin (t + 200 + 3600000)\<rparr>,
      [TokenRequest ''id'' ''secret''])"
  by (simp add: getRedditToken_def world_with_def initial_state_def token_response_def member_def)

lemma cached_state_reachable: "reachable (Some ''id'') (Some ''secret'') cached_state"
proof -
  have "reachable (Some ''id'') (Some ''secret'') initial_state" by (rule reachable.start)
  moreover have "client_id blocked_world = Some ''id''" "client_secret blocked_world = Some ''secret''"
    by (simp_all add: blocked_world_def world_with_def)
  moreover have "getRedditToken blocked_world initial_state =
      (JStr ''tok'', cached_state, [TokenRequest ''id'' ''secret''])"
    unfolding blocked_world_def first_call by (simp add: cached_state_def)
  ultimately show ?thesis by (rule reachable.call)
qed

theorem token_cache_reuse_witness:
  "reachable (client_id (world_with blocked_response 5000))
     (client_secret (world_with blocked_response 5000)) cached_state \<and>
   truthy (cachedToken cached_state) \<and> tokenExpiry cached_state = Fin 3601200 \<and>
   now_check (world_with blocked_response 5000) < 3601200 - 60000 \<and>
   getRedditToken (world_with blocked_response 5000) cached_state = (JStr ''tok'', cached_state, []) \<and>
   getRedditToken blocked_world initial_state =
     (JStr ''tok'', cached_state, [TokenRequest ''id'' ''secret'']) \<and>
   3601200 - 60000 \<le> now_check (world_with blocked_response 3541200) \<and>
   snd (snd (getRedditToken (world_with blocked_response 3541200) cached_state)) =
     [TokenRequest ''id'' ''secret'']"
proof -
  let ?w = "world_with blocked_response 5000"
  let ?late = "world_with blocked_response 3541200"
  have c: "client_id ?w = Some ''id''" "client_secret ?w = Some ''secret''"
    "client_id ?late = Some ''id''" "client_secret ?late = Some ''secret''"
    "client_id blocked_world = Some ''id''" "client_secret blocked_world = Some ''secret''"
    by (simp_all add: world_with_def blocked_world_def)
  have r: "reachable (client_id ?w) (client_secret ?w) cached_state"
    "reachable (client_id ?late) (client_secret ?late) cached_state"
    unfolding c by (rule cached_state_reachable)+
  have s: "truthy (cachedToken cached_state)" "tokenExpiry cached_state = Fin 3601200"
    by (simp_all add: cached_state_def)
  have n: "now_check ?w < 3601200 - 60000" "3601200 - 60000 \<le> now_check ?late"
    by (simp_all add: world_with_def)
  have f: "getRedditToken blocked_world initial_state =
      (JStr ''tok'', cached_state, [TokenRequest ''id'' ''secret''])"
    unfolding blocked_world_def first_call by (simp add: cached_state_def)
  have hit: "getRedditToken ?w cached_state = (cachedToken cached_state, cached_state, [])"
    using token_cache_reuse[of ?w cached_state 3601200] r(1) s n(1) by blast
  have again: "getRedditToken ?w cached_state = (JStr ''tok'', cached_state, [])"
    using token_cache_reuse[of blocked_world initial_state 0 "JStr ''tok''" cached_state
        "[TokenRequest ''id'' ''secret'']" ?w 3601200] f s(2) n(1) c
    by simp
  have "\<exists>a b. snd (snd (getRedditToken ?late cached_state)) = [TokenRequest a b]"
    using token_cache_reuse[of ?late cached_state 3601200] r(2) s n(2) by blast
  moreover have "snd (snd (getRedditToken ?late cached_state)) = [] \<or>
      snd (snd (getRedditToken ?late cached_state)) = [TokenRequest ''id'' ''secret'']"
    by (simp add: getRedditToken_def world_with_def cached_state_def token_response_def member_def)
  ultimately have miss: "snd (snd (getRedditToken ?late cached_state)) =
      [TokenRequest ''id'' ''secret'']" by auto
  show ?thesis using r(1) s n f hit again miss by simp
qed


subsection \<open>The handler\<close>

lemma handle_response_failure:
  assumes "\<not> ok r"
  shows "handle_response lead r =
           (case text_result r of
              Inl e \<Rightarrow> caught e
            | Inr x \<Rightarrow> \<lparr>code = status r, payload = StatusMessage lead (status r)\<rparr>)"
  using assms by (simp add: handle_response_def)

text \<open>What \<open>scrape\<close> does once the address is resolved.\<close>

lemma scrape_resolved:
  assumes "lookup req ''url'' = JStr s" and "toRedditJsonUrl s = Some v"
    and "getRedditToken w st = (token, st1, tsent)"
  shows "scrape w st req =
     (if \<not> truthy token
      then (\<lparr>code = 500,
             payload = ErrorMessage ''Could not authenticate with Reddit. Check API credentials.''\<rparr>,
            st1, tsent)
      else (case answer w (ThreadRequest v (Some token)) of
              Inl e \<Rightarrow> caught e
            | Inr r \<Rightarrow> handle_response ''Reddit API returned status '' r,
            st1, tsent @ [ThreadRequest v (Some token)]))"
proof -
  from assms(1) have nn: "\<not> nullish req" by (cases req) auto
  from assms(2) have "s \<noteq> []"
    by (auto simp: toRedditJsonUrl_def match_sub_id_def match_id_def split: option.splits)
  moreover from assms(2) have "v \<noteq> []"
    by (auto simp: toRedditJsonUrl_def split: option.splits)
  ultimately show ?thesis
    using assms nn by (simp add: scrape_def member_def split: sum.splits)
qed

lemma scrape_sends:
  assumes "scrape w st req = (rep, st', sent)" and "getRedditToken w st = (token, st1, tsent)"
  shows "sent = [] \<or> sent = tsent \<or>
         (\<exists>s v. lookup req ''url'' = JStr s \<and> toRedditJsonUrl s = Some v \<and> truthy token \<and>
                sent = tsent @ [ThreadRequest v (Some token)])"
proof (cases "\<exists>s v. lookup req ''url'' = JStr s \<and> toRedditJsonUrl s = Some v")
  case True
  then obtain s v where sv: "lookup req ''url'' = JStr s" "toRedditJsonUrl s = Some v" by blast
  show ?thesis
    using assms(1) sv unfolding scrape_resolved[OF sv assms(2)]
    by (auto split: if_splits)
next
  case False
  have "sent = []"
  proof (cases "lookup req ''url''")
    case (JStr s)
    with False have "toRedditJsonUrl s = None" by (cases "toRedditJsonUrl s") auto
    with assms(1) JStr show ?thesis
      by (auto simp: scrape_def member_def split: if_splits)
  qed (use assms(1) in \<open>auto simp: scrape_def member_def split: if_splits\<close>)
  then show ?thesis by simp
qed

lemma token_requests_only:
  assumes "getRedditToken w st = (token, st1, tsent)"
  shows "ThreadRequest u b \<notin> set tsent"
  using getRedditToken_sent[OF assms] by auto

text \<open>
  C8.  In index.js, a request to the thread endpoint is sent only after
  \<open>getRedditToken\<close> has returned a truthy token: it is then the last request, after those
  of \<open>getRedditToken\<close>, and carries that token.  When the token returned is not truthy, no
  request to the thread endpoint is sent, and for a request whose address resolves the
  reply is the status 500 with the message about authentication.
\<close>

theorem token_before_fetch:
  assumes "scrape w st req = (rep, st', sent)"
    and "getRedditToken w st = (token, st1, tsent)"
  shows "(\<not> truthy token \<longrightarrow>
            (\<forall>u b. ThreadRequest u b \<notin> set sent) \<and>
            (\<forall>s v. lookup req ''url'' = JStr s \<longrightarrow> toRedditJsonUrl s = Some v \<longrightarrow>
               rep = \<lparr>code = 500,
                      payload = ErrorMessage
                        ''Could not authenticate with Reddit. Check API credentials.''\<rparr> \<and>
               sent = tsent)) \<and>
         (\<forall>u b. ThreadRequest u b \<in> set sent \<longrightarrow>
            truthy token \<and> b = Some token \<and> sent = tsent @ [ThreadRequest u b])"
proof (intro conjI impI allI)
  fix u b
  assume "\<not> truthy token"
  with scrape_sends[OF assms] token_requests_only[OF assms(2)]
  show "ThreadRequest u b \<notin> set sent" by auto
next
  fix s v
  assume "\<not> truthy token" "lookup req ''url'' = JStr s" "toRedditJsonUrl s = Some v"
  with assms(1) scrape_resolved[OF _ _ assms(2), of req s v]
  show "rep = \<lparr>code = 500,
                payload = ErrorMessage
                  ''Could not authenticate with Reddit. Check API credentials.''\<rparr>"
    and "sent = tsent" by simp_all
next
  fix u b
  assume "ThreadRequest u b \<in> set sent"
  with scrape_sends[OF assms] token_requests_only[OF assms(2)]
  show "truthy token" "b = Some token" "sent = tsent @ [ThreadRequest u b]" by auto
qed

lemma sample_url:
  "toRedditJsonUrl ''https://www.reddit.com/r/pics/comments/1abc9z/a_title/'' =
     Some ''https://oauth.reddit.com/r/pics/comments/1abc9z''"
  by (simp add: toRedditJsonUrl_def match_sub_id_def canonicalize_def not_slash_def)

lemma bare_token: "getRedditToken bare_world initial_state = (JNull, initial_state, [])"
  by (simp add: getRedditToken_def bare_world_def world_with_def)

lemma bare_scrape:
  "scrape bare_world initial_state sample_request =
     (\<lparr>code = 500,
       payload = ErrorMessage ''Could not authenticate with Reddit. Check API credentials.''\<rparr>,
      initial_state, [])"
proof -
  have u: "lookup sample_request ''url'' =
      JStr ''https://www.reddit.com/r/pics/comments/1abc9z/a_title/''"
    by (simp add: sample_request_def)
  show ?thesis unfolding scrape_resolved[OF u sample_url bare_token] by simp
qed

lemma blocked_scrape:
  "scrape blocked_world initial_state sample_request =
     (\<lparr>code = 403, payload = StatusMessage ''Reddit API returned status '' 403\<rparr>,
      cached_state,
      [TokenRequest ''id'' ''secret'',
       ThreadRequest ''https://oauth.reddit.com/r/pics/comments/1abc9z'' (Some (JStr ''tok''))])"
proof -
  have u: "lookup sample_request ''url'' =
      JStr ''https://www.reddit.com/r/pics/comments/1abc9z/a_title/''"
    by (simp add: sample_request_def)
  have g: "getRedditToken blocked_world initial_state =
      (JStr ''tok'', cached_state, [TokenRequest ''id'' ''secret''])"
    unfolding blocked_world_def first_call by (simp add: cached_state_def)
  show ?thesis unfolding scrape_resolved[OF u sample_url g]
    by (simp add: blocked_world_def world_with_def blocked_response_def handle_response_def ok_def)
qed

theorem token_before_fetch_witness:
  "scrape bare_world initial_state sample_request =
     (\<lparr>code = 500,
       payload = ErrorMessage ''Could not authenticate with Reddit. Check API credentials.''\<rparr>,
      initial_state, []) \<and>
   getRedditToken bare_world initial_state = (JNull, initial_state, []) \<and>
   \<not> truthy JNull \<and>
   (\<forall>u b. ThreadRequest u b \<notin> set ([] :: request list)) \<and>
   scrape blocked_world initial_state sample_request =
     (\<lparr>code = 403, payload = StatusMessage ''Reddit API returned status '' 403\<rparr>,
      cached_state,
      [TokenRequest ''id'' ''secret'',
       ThreadRequest ''https://oauth.reddit.com/r/pics/comments/1abc9z'' (Some (JStr ''tok''))]) \<and>
   getRedditToken blocked_world initial_state =
     (JStr ''tok'', cached_state, [TokenRequest ''id'' ''secret'']) \<and>
   truthy (JStr ''tok'')"
proof -
  have g: "getRedditToken blocked_world initial_state =
      (JStr ''tok'', cached_state, [TokenRequest ''id'' ''secret''])"
    unfolding blocked_world_def first_call by (simp add: cached_state_def)
  have "\<forall>u b. ThreadRequest u b \<notin> set ([] :: request list)"
    using token_before_fetch[OF bare_scrape bare_token] by simp
  moreover have "truthy (JStr ''tok'')"
    using token_before_fetch[OF blocked_scrape g] by simp
  ultimately show ?thesis using bare_scrape bare_token blocked_scrape g by simp
qed


subsection \<open>A response that is not a success\<close>

text \<open>
  When the thread endpoint answers with a status outside 200 to 299 and the body of the
  answer can be read, both handlers reply with that status and the message naming it.  The
  reply is never a thread result, and it does not depend on what reading the body as JSON
  would give.
\<close>

lemma upstream_status_propagated:
  assumes "\<not> ok r" and "text_result r = Inr x"
  shows "handle_response lead r = \<lparr>code = status r, payload = StatusMessage lead (status r)\<rparr>"
  using assms by (simp add: handle_response_failure)

lemma failure_without_document:
  assumes "\<not> ok r"
  shows "handle_response lead (r\<lparr>json_result := j\<rparr>) = handle_response lead r"
    and "payload (handle_response lead r) \<noteq> ThreadResult title selftext comments"
  using assms
  by (auto simp: handle_response_def ok_def caught_def split: sum.splits)

lemma scrape_status_propagated:
  assumes "scrape w st req = (rep, st', sent)" and "ThreadRequest u b \<in> set sent"
    and "answer w (ThreadRequest u b) = Inr r" and "\<not> ok r" and "text_result r = Inr x"
  shows "rep = \<lparr>code = status r, payload = StatusMessage ''Reddit API returned status '' (status r)\<rparr>"
proof -
  obtain token st1 tsent where g: "getRedditToken w st = (token, st1, tsent)"
    by (cases "getRedditToken w st") auto
  from scrape_sends[OF assms(1) g] assms(2) token_requests_only[OF g]
  obtain s where s: "lookup req ''url'' = JStr s" "toRedditJsonUrl s = Some u" "truthy token"
    "b = Some token"
    by auto
  from assms(1) have "rep = handle_response ''Reddit API returned status '' r"
    unfolding scrape_resolved[OF s(1,2) g] using s(3,4) assms(3) by simp
  then show ?thesis using assms(4,5) by (simp add: upstream_status_propagated)
qed

lemma scrape_www_status_propagated:
  assumes "scrape_www w req = (rep, sent)" and "ThreadRequest u b \<in> set sent"
    and "answer w (ThreadRequest u b) = Inr r" and "\<not> ok r" and "text_result r = Inr x"
  shows "rep = \<lparr>code = status r, payload = StatusMessage ''Reddit returned status '' (status r)\<rparr>"
proof -
  from assms(1,2,3) have "rep = handle_response ''Reddit returned status '' r"
    by (cases "lookup req ''url''")
       (auto simp: scrape_www_def member_def split: if_splits sum.splits)
  then show ?thesis using assms(4,5) by (simp add: upstream_status_propagated)
qed

lemma sample_url_www:
  "toRedditJsonUrl_www ''https://www.reddit.com/r/pics/comments/1abc9z/a_title/'' =
     ''https://www.reddit.com/comments/1abc9z.json''"
  by (simp add: toRedditJsonUrl_www_def match_alnum_id_def canonicalize_def alnum_def)

text \<open>
  C4.  The thread endpoint answers 403 and the connection breaks while the handler reads
  the body of that answer for its log line.  The exception reaches the \<^verbatim>\<open>catch\<close> block,
  and the reply has the status 500, not 403, in index.js and in the variant of part_000
  alike.
\<close>

theorem upstream_status_masked:
  "status broken_response = 403 \<and> \<not> ok broken_response \<and>
   scrape broken_world initial_state sample_request =
     (\<lparr>code = 500, payload = Caught (NetworkError ''Premature close'')\<rparr>,
      cached_state,
      [TokenRequest ''id'' ''secret'',
       ThreadRequest ''https://oauth.reddit.com/r/pics/comments/1abc9z'' (Some (JStr ''tok''))]) \<and>
   scrape_www broken_world sample_request =
     (\<lparr>code = 500, payload = Caught (NetworkError ''Premature close'')\<rparr>,
      [ThreadRequest ''https://www.reddit.com/comments/1abc9z.json'' None])"
proof -
  have u: "lookup sample_request ''url'' =
      JStr ''https://www.reddit.com/r/pics/comments/1abc9z/a_title/''"
    by (simp add: sample_request_def)
  have g: "getRedditToken broken_world initial_state =
      (JStr ''tok'', cached_state, [TokenRequest ''id'' ''secret''])"
    unfolding broken_world_def first_call by (simp add: cached_state_def)
  have a: "scrape broken_world initial_state sample_request =
     (\<lparr>code = 500, payload = Caught (NetworkError ''Premature close'')\<rparr>,
      cached_state,
      [TokenRequest ''id'' ''secret'',
       ThreadRequest ''https://oauth.reddit.com/r/pics/comments/1abc9z'' (Some (JStr ''tok''))])"
    unfolding scrape_resolved[OF u sample_url g]
    by (simp add: broken_world_def world_with_def broken_response_def handle_response_def ok_def
          caught_def)
  have b: "scrape_www broken_world sample_request =
     (\<lparr>code = 500, payload = Caught (NetworkError ''Premature close'')\<rparr>,
      [ThreadRequest ''https://www.reddit.com/comments/1abc9z.json'' None])"
    by (simp add: scrape_www_def sample_request_def member_def sample_url_www broken_world_def
          world_with_def broken_response_def handle_response_def ok_def caught_def)
  show ?thesis using a b by (simp add: broken_response_def ok_def)
qed

end
